theory Spec2Isabelle
  imports Main "HOL-Library.AList"
begin

section \<open>The article list page (src/pages/Article/List/index.tsx)\<close>

text \<open>
  The page is a React function component whose state lives in reactive cells. It is
  modelled as a state machine: a record holds the cells, every closure of the component
  (\<open>fetchData\<close>, \<open>resetParamsAndRefresh\<close>, \<open>refreshData\<close>, \<open>handleStateChange\<close>, ...)
  is a function from the state to the new state and the list of remote calls it makes,
  and the events of the page (a widget callback, the settling of a promise) are the
  steps. An event that cannot happen in a state gives \<open>None\<close>.
\<close>

subsection \<open>JavaScript values and plain objects\<close>

text \<open>
  The values that occur in the parameter objects: \<open>undefined\<close>, strings and numbers (enum
  members are numbers or strings at run time). A plain object is the list of its own
  properties in insertion order; reading goes through \<open>map_of\<close>, so what the list means is
  the partial map from keys to values.
\<close>

datatype jsval = JUndefined | JStr string | JNum int

type_synonym obj = "(string \<times> jsval) list"

definition Object_keys :: "obj \<Rightarrow> string list" where
  "Object_keys ob = map fst ob"

text \<open>\<open>Reflect.get(ob, k)\<close> and \<open>ob[k]\<close>: a missing property reads as \<open>undefined\<close>.\<close>

definition Reflect_get :: "obj \<Rightarrow> string \<Rightarrow> jsval" where
  "Reflect_get ob k = (case map_of ob k of None \<Rightarrow> JUndefined | Some v \<Rightarrow> v)"

text \<open>\<open>ob[k] = v\<close>: an existing property keeps its place, a new one is appended.\<close>

definition set_prop :: "string \<Rightarrow> jsval \<Rightarrow> obj \<Rightarrow> obj" where
  "set_prop k v ob = AList.update k v ob"

definition Reflect_deleteProperty :: "obj \<Rightarrow> string \<Rightarrow> obj" where
  "Reflect_deleteProperty ob k = AList.delete k ob"

text \<open>
  The spread \<open>{...tgt, ...src}\<close>: every own property of \<open>src\<close> is copied onto \<open>tgt\<close>, in
  order, so \<open>src\<close> wins where both have the key.
\<close>

definition copy_prop :: "obj \<Rightarrow> string \<Rightarrow> obj \<Rightarrow> obj" where
  "copy_prop src k ob = set_prop k (Reflect_get src k) ob"

definition spread :: "obj \<Rightarrow> obj \<Rightarrow> obj" where
  "spread tgt src = fold (copy_prop src) (Object_keys src) tgt"

text \<open>
  lodash's \<open>_.isEqual\<close> on two plain objects of primitive values: each own key of one is
  an own key of the other, with the same value.
\<close>

definition isEqual :: "obj \<Rightarrow> obj \<Rightarrow> bool" where
  "isEqual a b =
     (list_all (\<lambda>k. map_of b k = map_of a k) (Object_keys a) \<and>
      list_all (\<lambda>k. map_of a k = map_of b k) (Object_keys b))"

text \<open>\<open>toRaw\<close> gives the plain object behind a reactive proxy: the same properties.\<close>

definition toRaw :: "obj \<Rightarrow> obj" where
  "toRaw ob = ob"

text \<open>\<open>Boolean(s)\<close> on a string: false exactly for the empty string.\<close>

definition Boolean_str :: "string \<Rightarrow> bool" where
  "Boolean_str s = (s \<noteq> [])"

text \<open>
  A request parameter is included when the object gives it a value other than
  \<open>undefined\<close>. The source writes an absent parameter as a property holding \<open>undefined\<close>
  (\<open>keyword: Boolean(kw) ? kw : undefined\<close>, \<open>page: article.pagination?.current_page\<close>);
  such a property is an own key of the object and carries no value.
\<close>

definition included :: "obj \<Rightarrow> string \<Rightarrow> bool" where
  "included ob k = (case map_of ob k of None \<Rightarrow> False | Some v \<Rightarrow> v \<noteq> JUndefined)"

subsection \<open>Data of the page\<close>

text \<open>
  Modelled from the spec: the enum \<open>PublishState\<close> is declared in \<open>@/constants/publish\<close>,
  which is not part of the source. The glossary gives its values, "Publish state: one of
  Draft / Published / Recycle (bin)", and the source names the same three members
  (\<open>PublishState.Draft\<close>, \<open>PublishState.Published\<close>, \<open>PublishState.Recycle\<close>).
\<close>

datatype PublishState = Draft | Published | Recycle

text \<open>
  The records below are declared outside the source too; they carry the fields the page
  reads (\<open>article._id\<close>, \<open>pagination.current_page\<close>, \<open>pagination.per_page\<close>,
  \<open>pagination.total\<close>, \<open>tag.slug\<close>, \<open>tag.name\<close>, \<open>tag.articles_count\<close>, \<open>c.slug\<close>).
\<close>

type_synonym ArticleId = string

record Article =
  article_id :: ArticleId

record Pagination =
  current_page :: int
  per_page :: int
  total :: int

record ResponsePaginationData =
  data :: "Article list"
  pagination :: "Pagination option"

record Tag =
  slug :: string
  name :: string
  articles_count :: int

datatype CategoryTree = CategoryTree (category_slug: string) (children: "CategoryTree list")

definition SELECT_ALL_VALUE :: jsval where
  "SELECT_ALL_VALUE = JStr ''ALL''"

text \<open>
  \<open>SortTypeWithHot.Desc\<close> is a member of an enum of \<open>@/constants/sort\<close>, outside the
  source: its value is the parameter \<open>desc\<close>.
\<close>

definition DEFAULT_FILTER_PARAMS :: "jsval \<Rightarrow> obj" where
  "DEFAULT_FILTER_PARAMS desc =
     [(''sort'', desc),
      (''tag_slug'', SELECT_ALL_VALUE),
      (''category_slug'', SELECT_ALL_VALUE),
      (''lang'', SELECT_ALL_VALUE),
      (''public'', SELECT_ALL_VALUE),
      (''origin'', SELECT_ALL_VALUE),
      (''state'', SELECT_ALL_VALUE)]"

definition filter_keys :: "string list" where
  "filter_keys =
     [''sort'', ''tag_slug'', ''category_slug'', ''lang'', ''public'', ''origin'', ''state'']"

text \<open>What the page asks of the outside: the four remote calls, and the scroll to the top.\<close>

datatype effect =
    GetArticles obj
  | GetCategories obj
  | GetTags obj
  | PatchArticlesState "ArticleId list" PublishState
  | ScrollTo_body

text \<open>
  The reactive cells of the component, in the order of the source, and what the page's
  surroundings hold for it: whether it is mounted, the confirmation dialogs that are
  open (each with the arguments its \<open>onOk\<close> closure captured), and how many promises of
  each remote call have not settled yet.
\<close>

record state =
  loading :: bool
  article :: ResponsePaginationData
  loadingCategory :: bool
  categoriesTree :: "CategoryTree list"
  loadingTag :: bool
  tags :: "Tag list"
  serarchKeyword :: string
  filterParams :: obj
  selectedIds :: "ArticleId list"
  mounted :: bool
  modals :: "(ArticleId list \<times> PublishState) list"
  pending_articles :: nat
  pending_categories :: nat
  pending_tags :: nat
  pending_patches :: nat

definition initial :: "jsval \<Rightarrow> state" where
  "initial desc =
     \<lparr> loading = False,
       article = \<lparr> data = [], pagination = None \<rparr>,
       loadingCategory = False,
       categoriesTree = [],
       loadingTag = False,
       tags = [],
       serarchKeyword = [],
       filterParams = spread [] (DEFAULT_FILTER_PARAMS desc),
       selectedIds = [],
       mounted = False,
       modals = [],
       pending_articles = 0,
       pending_categories = 0,
       pending_tags = 0,
       pending_patches = 0 \<rparr>"

subsection \<open>The closures of the component\<close>

type_synonym handler = "state \<Rightarrow> state \<times> effect list"

definition and_then :: "handler \<Rightarrow> handler \<Rightarrow> handler" where
  "and_then f g s = (case f s of (s1, e1) \<Rightarrow> (case g s1 of (s2, e2) \<Rightarrow> (s2, e1 @ e2)))"

text \<open>
  Modelled from the spec: \<open>useLoading\<close> comes from the package \<open>veact-use\<close>, which is not
  part of the source. The spec calls what it gives "a loading flag": a boolean cell that
  \<open>loading.promise(p)\<close> sets when it is handed the promise and clears when the promise
  settles, whatever the flag was before.
\<close>

definition promise_started :: "bool \<Rightarrow> bool" where
  "promise_started flag = True"

definition promise_settled :: "bool \<Rightarrow> bool" where
  "promise_settled flag = False"

definition fetchCategories :: handler where
  "fetchCategories s =
     (s\<lparr>loadingCategory := promise_started (loadingCategory s),
        pending_categories := Suc (pending_categories s)\<rparr>,
      [GetCategories [(''per_page'', JNum 50)]])"

definition fetchCategories_then :: "CategoryTree list \<Rightarrow> state \<Rightarrow> state" where
  "fetchCategories_then tree s = s\<lparr>categoriesTree := tree\<rparr>"

definition fetchTags :: handler where
  "fetchTags s =
     (s\<lparr>loadingTag := promise_started (loadingTag s),
        pending_tags := Suc (pending_tags s)\<rparr>,
      [GetTags [(''per_page'', JNum 50)]])"

definition fetchTags_then :: "Tag list \<Rightarrow> state \<Rightarrow> state" where
  "fetchTags_then result_data s = s\<lparr>tags := result_data\<rparr>"

definition handleSelect :: "ArticleId list \<Rightarrow> state \<Rightarrow> state" where
  "handleSelect ids s = s\<lparr>selectedIds := ids\<rparr>"

text \<open>
  \<open>fetchData\<close>, lines 86 to 105. \<open>getParams_of\<close> is the object \<open>getParams\<close> at the call of
  \<open>getArticles\<close>: the literal \<open>{...params, ...filterParams, keyword: ...}\<close> and then the
  loop over its keys that deletes each property whose value is \<open>SELECT_ALL_VALUE\<close>.
\<close>

definition delete_if_ALL :: "string \<Rightarrow> obj \<Rightarrow> obj" where
  "delete_if_ALL paramKey getParams =
     (if Reflect_get getParams paramKey = SELECT_ALL_VALUE
      then Reflect_deleteProperty getParams paramKey else getParams)"

definition getParams_of :: "obj option \<Rightarrow> obj \<Rightarrow> string \<Rightarrow> obj" where
  "getParams_of params fp kw =
     (let getParams =
            set_prop ''keyword'' (if Boolean_str kw then JStr kw else JUndefined)
              (spread (spread [] (case params of None \<Rightarrow> [] | Some p \<Rightarrow> p)) fp)
      in fold delete_if_ALL (Object_keys getParams) getParams)"

definition fetchData :: "obj option \<Rightarrow> handler" where
  "fetchData params s =
     (s\<lparr>loading := promise_started (loading s),
        pending_articles := Suc (pending_articles s)\<rparr>,
      [GetArticles (getParams_of params (filterParams s) (serarchKeyword s))])"

text \<open>
  The callback of \<open>then\<close> in \<open>fetchData\<close>, lines 98 to 104: the two writes to the cells of
  \<open>article\<close>, inside one \<open>batchedUpdates\<close> block, then the scroll. A write is kept as the
  statement it is, so that the body of the callback is the list of its statements.
\<close>

datatype cell_write = Set_article_data "Article list" | Set_article_pagination "Pagination option"

fun apply_write :: "cell_write \<Rightarrow> state \<Rightarrow> state" where
  "apply_write (Set_article_data v) s = s\<lparr>article := (article s)\<lparr>data := v\<rparr>\<rparr>"
| "apply_write (Set_article_pagination v) s = s\<lparr>article := (article s)\<lparr>pagination := v\<rparr>\<rparr>"

datatype update = Write cell_write | BatchedUpdates "cell_write list"

text \<open>
  \<open>batchedUpdates\<close> is React's, handed on by \<open>veact\<close>: the component, which renders again
  after a write to a reactive cell, renders once after the block for all the writes made
  in it. \<open>renders us s\<close> are the states the component is rendered with while the updates
  \<open>us\<close> run from \<open>s\<close>, in order, and \<open>run_updates us s\<close> is the state they end in.
\<close>

fun renders :: "update list \<Rightarrow> state \<Rightarrow> state list" where
  "renders [] s = []"
| "renders (Write w # us) s = apply_write w s # renders us (apply_write w s)"
| "renders (BatchedUpdates ws # us) s =
     fold apply_write ws s # renders us (fold apply_write ws s)"

fun run_updates :: "update list \<Rightarrow> state \<Rightarrow> state" where
  "run_updates [] s = s"
| "run_updates (Write w # us) s = run_updates us (apply_write w s)"
| "run_updates (BatchedUpdates ws # us) s = run_updates us (fold apply_write ws s)"

definition fetchData_then_updates :: "ResponsePaginationData \<Rightarrow> update list" where
  "fetchData_then_updates result =
     [BatchedUpdates [Set_article_data (data result), Set_article_pagination (pagination result)]]"

definition fetchData_then :: "ResponsePaginationData \<Rightarrow> handler" where
  "fetchData_then result s = (run_updates (fetchData_then_updates result) s, [ScrollTo_body])"

text \<open>
  \<open>useWatch(filterParams, () => fetchData())\<close>, line 141. A write to a property of the
  reactive object notifies the watcher when it changes the property (a new key, or a
  value other than the one it had); the watcher then calls \<open>fetchData()\<close>, which reads
  the object after the write. \<open>filterParams_assign\<close> is one such write with the watcher
  running at once.

  When the watcher runs for several writes made in one \<open>batchedUpdates\<close> block is decided
  by \<open>veact\<close>, which is not part of the source, and the spec does not say: \<open>Sync\<close> is a
  watcher that runs at each write that changes the object, \<open>Batched\<close> one that runs once
  after the block if some write changed it. Only \<open>resetParamsAndRefresh\<close> makes more than
  one write, so only there do the two differ.
\<close>

datatype flush = Sync | Batched

definition filterParams_assign :: "string \<Rightarrow> jsval \<Rightarrow> handler" where
  "filterParams_assign k v s =
     (let s' = s\<lparr>filterParams := set_prop k v (filterParams s)\<rparr>
      in if map_of (filterParams s) k = Some v then (s', []) else fetchData None s')"

fun assign_each :: "obj \<Rightarrow> string list \<Rightarrow> handler" where
  "assign_each src [] s = (s, [])"
| "assign_each src (paramKey # ks) s =
     and_then (filterParams_assign paramKey (Reflect_get src paramKey)) (assign_each src ks) s"

fun assign_quiet :: "obj \<Rightarrow> string list \<Rightarrow> state \<Rightarrow> state \<times> bool" where
  "assign_quiet src [] s = (s, False)"
| "assign_quiet src (paramKey # ks) s =
     (let v = Reflect_get src paramKey;
          changed = (map_of (filterParams s) paramKey \<noteq> Some v);
          (s', later) =
            assign_quiet src ks (s\<lparr>filterParams := set_prop paramKey v (filterParams s)\<rparr>)
      in (s', changed \<or> later))"

definition resetParamsAndRefresh :: "flush \<Rightarrow> jsval \<Rightarrow> handler" where
  "resetParamsAndRefresh fl desc s =
     (let s0 = s\<lparr>serarchKeyword := []\<rparr>
      in if isEqual (toRaw (filterParams s0)) (DEFAULT_FILTER_PARAMS desc)
         then fetchData None s0
         else (case fl of
                 Sync \<Rightarrow>
                   assign_each (DEFAULT_FILTER_PARAMS desc)
                     (Object_keys (DEFAULT_FILTER_PARAMS desc)) s0
               | Batched \<Rightarrow>
                   (case assign_quiet (DEFAULT_FILTER_PARAMS desc)
                           (Object_keys (DEFAULT_FILTER_PARAMS desc)) s0 of
                      (s1, changed) \<Rightarrow> if changed then fetchData None s1 else (s1, []))))"

definition refreshData :: handler where
  "refreshData s =
     fetchData
       (Some [(''page'', case pagination (article s) of
                           None \<Rightarrow> JUndefined | Some p \<Rightarrow> JNum (current_page p)),
              (''per_page'', case pagination (article s) of
                           None \<Rightarrow> JUndefined | Some p \<Rightarrow> JNum (per_page p))]) s"

text \<open>
  \<open>handleStateChange\<close> only opens the dialog of \<open>Modal.confirm\<close>; \<open>onOk\<close> is the closure it
  hands to the dialog, and the callback of its \<open>then\<close> is \<open>refreshData\<close>.
\<close>

definition handleStateChange :: "ArticleId list \<Rightarrow> PublishState \<Rightarrow> handler" where
  "handleStateChange articleIds st s = (s\<lparr>modals := modals s @ [(articleIds, st)]\<rparr>, [])"

definition onOk :: "ArticleId list \<Rightarrow> PublishState \<Rightarrow> handler" where
  "onOk articleIds st s =
     (s\<lparr>pending_patches := Suc (pending_patches s)\<rparr>, [PatchArticlesState articleIds st])"

definition onMounted :: handler where
  "onMounted = and_then (fetchData None) (and_then fetchCategories fetchTags)"

subsection \<open>The widgets and the events\<close>

text \<open>The seven selects of the toolbar, each with the property its \<open>onChange\<close> writes.\<close>

datatype select =
  Select_state | Select_public | Select_origin | Select_lang | SortSelect | Select_tag
  | TreeSelect_category

fun select_key :: "select \<Rightarrow> string" where
  "select_key Select_state = ''state''"
| "select_key Select_public = ''public''"
| "select_key Select_origin = ''origin''"
| "select_key Select_lang = ''lang''"
| "select_key SortSelect = ''sort''"
| "select_key Select_tag = ''tag_slug''"
| "select_key TreeSelect_category = ''category_slug''"

text \<open>
  The options of the bulk menu, each by the state its \<open>onClick\<close> passes on, and the
  \<open>disabled\<close> property of the menu, \<open>!selectedIds.value.length\<close>.
\<close>

definition DropdownMenu_options :: "PublishState list" where
  "DropdownMenu_options = [Draft, Published, Recycle]"

definition DropdownMenu_disabled :: "state \<Rightarrow> bool" where
  "DropdownMenu_disabled s = (length (selectedIds s) = 0)"

text \<open>
  An event is a callback of a widget with its arguments, the click on OK of the dialog
  at a position of the list of open dialogs, the disappearance of a dialog (cancelled,
  or closed after its \<open>onOk\<close>), or the settling of a pending promise.
\<close>

datatype event =
    Mounted
  | Select_onChange select jsval
  | Input_onChange string
  | Input_onSearch
  | Reset_onClick
  | Table_onSelecte "ArticleId list"
  | Menu_onClick nat
  | Table_onUpdateState Article PublishState
  | Table_onPagination int int
  | Modal_onOk nat
  | Modal_close nat
  | GetArticles_resolved ResponsePaginationData
  | GetArticles_rejected
  | GetCategories_resolved "CategoryTree list"
  | GetCategories_rejected
  | GetTags_resolved "Tag list"
  | GetTags_rejected
  | Patch_resolved
  | Patch_rejected

text \<open>
  The events of the mounted component. The menu has the options of its list, a dialog
  that is not open cannot be confirmed, and only a pending promise settles. The click on
  an option of the menu is the closure of the source, which calls \<open>handleStateChange\<close>
  with the selected ids whatever they are: the page hands \<open>disabled\<close> to the menu, and what
  the menu does with it is the menu's (\<open>DropdownMenu\<close> is not part of the source).
\<close>

fun handle :: "flush \<Rightarrow> jsval \<Rightarrow> event \<Rightarrow> state \<Rightarrow> (state \<times> effect list) option" where
  "handle fl desc Mounted s = None"
| "handle fl desc (Select_onChange w v) s = Some (filterParams_assign (select_key w) v s)"
| "handle fl desc (Input_onChange kw) s = Some (s\<lparr>serarchKeyword := kw\<rparr>, [])"
| "handle fl desc Input_onSearch s = Some (fetchData None s)"
| "handle fl desc Reset_onClick s = Some (resetParamsAndRefresh fl desc s)"
| "handle fl desc (Table_onSelecte ids) s = Some (handleSelect ids s, [])"
| "handle fl desc (Menu_onClick n) s =
     (if length DropdownMenu_options \<le> n then None
      else Some (handleStateChange (selectedIds s) (DropdownMenu_options ! n) s))"
| "handle fl desc (Table_onUpdateState a st) s = Some (handleStateChange [article_id a] st s)"
| "handle fl desc (Table_onPagination page pageSize) s =
     Some (fetchData (Some [(''page'', JNum page), (''per_page'', JNum pageSize)]) s)"
| "handle fl desc (Modal_onOk i) s =
     (if length (modals s) \<le> i then None
      else Some (onOk (fst (modals s ! i)) (snd (modals s ! i)) s))"
| "handle fl desc (Modal_close i) s =
     (if length (modals s) \<le> i then None
      else Some (s\<lparr>modals := take i (modals s) @ drop (Suc i) (modals s)\<rparr>, []))"
| "handle fl desc (GetArticles_resolved result) s =
     (if pending_articles s = 0 then None
      else Some (fetchData_then result
                   (s\<lparr>loading := promise_settled (loading s),
                      pending_articles := pending_articles s - 1\<rparr>)))"
| "handle fl desc GetArticles_rejected s =
     (if pending_articles s = 0 then None
      else Some (s\<lparr>loading := promise_settled (loading s),
                    pending_articles := pending_articles s - 1\<rparr>, []))"
| "handle fl desc (GetCategories_resolved tree) s =
     (if pending_categories s = 0 then None
      else Some (fetchCategories_then tree
                   (s\<lparr>loadingCategory := promise_settled (loadingCategory s),
                      pending_categories := pending_categories s - 1\<rparr>), []))"
| "handle fl desc GetCategories_rejected s =
     (if pending_categories s = 0 then None
      else Some (s\<lparr>loadingCategory := promise_settled (loadingCategory s),
                    pending_categories := pending_categories s - 1\<rparr>, []))"
| "handle fl desc (GetTags_resolved result_data) s =
     (if pending_tags s = 0 then None
      else Some (fetchTags_then result_data
                   (s\<lparr>loadingTag := promise_settled (loadingTag s),
                      pending_tags := pending_tags s - 1\<rparr>), []))"
| "handle fl desc GetTags_rejected s =
     (if pending_tags s = 0 then None
      else Some (s\<lparr>loadingTag := promise_settled (loadingTag s),
                    pending_tags := pending_tags s - 1\<rparr>, []))"
| "handle fl desc Patch_resolved s =
     (if pending_patches s = 0 then None
      else Some (refreshData (s\<lparr>pending_patches := pending_patches s - 1\<rparr>)))"
| "handle fl desc Patch_rejected s =
     (if pending_patches s = 0 then None
      else Some (s\<lparr>pending_patches := pending_patches s - 1\<rparr>, []))"

text \<open>The component mounts once, and its widgets exist from then on.\<close>

definition step :: "flush \<Rightarrow> jsval \<Rightarrow> state \<Rightarrow> event \<Rightarrow> (state \<times> effect list) option" where
  "step fl desc s e =
     (if e = Mounted
      then (if mounted s then None else Some (onMounted (s\<lparr>mounted := True\<rparr>)))
      else if mounted s then handle fl desc e s else None)"

fun run :: "flush \<Rightarrow> jsval \<Rightarrow> state \<Rightarrow> event list \<Rightarrow> (state \<times> effect list) option" where
  "run fl desc s [] = Some (s, [])"
| "run fl desc s (e # es) =
     (case step fl desc s e of
        None \<Rightarrow> None
      | Some (s1, out1) \<Rightarrow>
          (case run fl desc s1 es of
             None \<Rightarrow> None
           | Some (s2, out2) \<Rightarrow> Some (s2, out1 @ out2)))"

subsection \<open>Predicates used in the statements and their proofs\<close>

fun is_patch :: "effect \<Rightarrow> bool" where
  "is_patch (PatchArticlesState ids st) = True"
| "is_patch other = False"

fun is_confirmation :: "event \<Rightarrow> bool" where
  "is_confirmation (Modal_onOk i) = True"
| "is_confirmation other = False"

fun is_categories :: "effect \<Rightarrow> bool" where
  "is_categories (GetCategories params) = True"
| "is_categories other = False"

fun is_tags :: "effect \<Rightarrow> bool" where
  "is_tags (GetTags params) = True"
| "is_tags other = False"

text \<open>
  The invariant of the page: how the loading flags relate to the pending promises, and
  that nothing is pending or open before the mount.
\<close>

definition page_inv :: "state \<Rightarrow> bool" where
  "page_inv s =
     ((loading s \<longrightarrow> 0 < pending_articles s) \<and>
      pending_categories s = (if loadingCategory s then 1 else 0) \<and>
      pending_tags s = (if loadingTag s then 1 else 0) \<and>
      (\<not> mounted s \<longrightarrow>
         \<not> loadingCategory s \<and> \<not> loadingTag s \<and> pending_articles s = 0 \<and>
         pending_patches s = 0 \<and> modals s = []))"

text \<open>\<open>frame s s'\<close>: the two states differ at most in the cells a list fetch or a write to the
  filter params touches (the keyword, the filter params, the list flag and the pending
  list requests).\<close>

definition frame :: "state \<Rightarrow> state \<Rightarrow> bool" where
  "frame s s' =
     (article s' = article s \<and> loadingCategory s' = loadingCategory s \<and>
      categoriesTree s' = categoriesTree s \<and> loadingTag s' = loadingTag s \<and>
      tags s' = tags s \<and> selectedIds s' = selectedIds s \<and> mounted s' = mounted s \<and>
      modals s' = modals s \<and> pending_categories s' = pending_categories s \<and>
      pending_tags s' = pending_tags s \<and> pending_patches s' = pending_patches s)"

section \<open>Plain objects: what the loops compute\<close>

lemma map_of_set_prop: "map_of (set_prop k v ob) = (map_of ob)(k \<mapsto> v)"
  by (simp add: set_prop_def update_conv')

lemma map_of_deleteProperty: "map_of (Reflect_deleteProperty ob k) = (map_of ob)(k := None)"
  by (simp add: Reflect_deleteProperty_def delete_conv')

lemma in_keys_iff: "(x \<in> set (Object_keys ob)) = (map_of ob x \<noteq> None)"
  by (simp add: Object_keys_def map_of_eq_None_iff)

lemma map_of_copy_prop:
  "map_of (copy_prop src k ob) x = (if x = k then Some (Reflect_get src k) else map_of ob x)"
  by (simp add: copy_prop_def map_of_set_prop)

lemma spread_fold:
  "map_of (fold (copy_prop src) ks tgt) x =
     (if x \<in> set ks then Some (Reflect_get src x) else map_of tgt x)"
  by (induction ks arbitrary: tgt) (simp_all add: map_of_copy_prop)

lemma map_of_spread:
  "map_of (spread tgt src) x =
     (case map_of src x of Some v \<Rightarrow> Some v | None \<Rightarrow> map_of tgt x)"
  by (simp add: spread_def spread_fold in_keys_iff Reflect_get_def split: option.splits)

lemma map_of_delete_if_ALL:
  "map_of (delete_if_ALL k ob) x =
     (if x = k \<and> map_of ob k = Some SELECT_ALL_VALUE then None else map_of ob x)"
  by (simp add: delete_if_ALL_def map_of_deleteProperty Reflect_get_def SELECT_ALL_VALUE_def
      split: option.splits)

lemma delete_fold:
  "map_of (fold delete_if_ALL ks ob) x =
     (if x \<in> set ks \<and> map_of ob x = Some SELECT_ALL_VALUE then None else map_of ob x)"
  by (induction ks arbitrary: ob) (auto simp: map_of_delete_if_ALL)

lemma map_of_getParams_of:
  "map_of (getParams_of params fp kw) k =
     (if k = ''keyword''
      then (if kw = [] then Some JUndefined
            else if kw = ''ALL'' then None else Some (JStr kw))
      else (case map_of fp k of
              Some v \<Rightarrow> (if v = SELECT_ALL_VALUE then None else Some v)
            | None \<Rightarrow>
                (case params of
                   None \<Rightarrow> None
                 | Some p \<Rightarrow>
                     (case map_of p k of
                        Some v \<Rightarrow> (if v = SELECT_ALL_VALUE then None else Some v)
                      | None \<Rightarrow> None))))"
proof -
  have "JStr kw = SELECT_ALL_VALUE \<longleftrightarrow> kw = ''ALL''"
    by (simp add: SELECT_ALL_VALUE_def)
  moreover have "JUndefined \<noteq> SELECT_ALL_VALUE"
    by (simp add: SELECT_ALL_VALUE_def)
  ultimately show ?thesis
    by (simp add: getParams_of_def Let_def delete_fold in_keys_iff map_of_set_prop map_of_spread
        Boolean_str_def split: option.splits)
qed

lemma fetchData_then_eq:
  "fetchData_then result s =
     (s\<lparr>article := (article s)\<lparr>data := data result, pagination := pagination result\<rparr>\<rparr>,
      [ScrollTo_body])"
  by (simp add: fetchData_then_def fetchData_then_updates_def)

section \<open>The key set of the filter params\<close>

lemma keys_set_prop:
  "k \<in> set (Object_keys ob) \<Longrightarrow> Object_keys (set_prop k v ob) = Object_keys ob"
  by (simp add: Object_keys_def set_prop_def update_keys)

lemma keys_initial: "Object_keys (filterParams (initial desc)) = filter_keys"
  by (simp add: initial_def spread_def copy_prop_def set_prop_def Object_keys_def
      DEFAULT_FILTER_PARAMS_def filter_keys_def Reflect_get_def)

lemma keys_DEFAULT: "Object_keys (DEFAULT_FILTER_PARAMS desc) = filter_keys"
  by (simp add: Object_keys_def DEFAULT_FILTER_PARAMS_def filter_keys_def)

lemma select_key_in: "select_key w \<in> set filter_keys"
  by (cases w) (simp_all add: filter_keys_def)

lemma fetchData_state:
  "fst (fetchData params s) =
     s\<lparr>loading := True, pending_articles := Suc (pending_articles s)\<rparr>"
  by (simp add: fetchData_def promise_started_def)

lemma fetchData_filterParams: "filterParams (fst (fetchData params s)) = filterParams s"
  by (simp add: fetchData_def)

lemma assign_filterParams:
  "filterParams (fst (filterParams_assign k v s)) = set_prop k v (filterParams s)"
  by (simp add: filterParams_assign_def Let_def fetchData_def)

lemma and_then_fst: "fst (and_then f g s) = fst (g (fst (f s)))"
  by (simp add: and_then_def split: prod.splits)

lemma assign_each_keys:
  "set ks \<subseteq> set (Object_keys (filterParams s)) \<Longrightarrow>
   Object_keys (filterParams (fst (assign_each src ks s))) = Object_keys (filterParams s)"
proof (induction ks arbitrary: s)
  case Nil
  then show ?case by simp
next
  case (Cons k ks)
  let ?s1 = "fst (filterParams_assign k (Reflect_get src k) s)"
  have 1: "Object_keys (filterParams ?s1) = Object_keys (filterParams s)"
    using Cons.prems by (simp add: assign_filterParams keys_set_prop)
  with Cons.prems have "set ks \<subseteq> set (Object_keys (filterParams ?s1))" by simp
  from Cons.IH[OF this] 1 show ?case by (simp add: and_then_fst)
qed

lemma assign_quiet_keys:
  "set ks \<subseteq> set (Object_keys (filterParams s)) \<Longrightarrow>
   Object_keys (filterParams (fst (assign_quiet src ks s))) = Object_keys (filterParams s)"
proof (induction ks arbitrary: s)
  case Nil
  then show ?case by simp
next
  case (Cons k ks)
  let ?s1 = "s\<lparr>filterParams := set_prop k (Reflect_get src k) (filterParams s)\<rparr>"
  have 1: "Object_keys (filterParams ?s1) = Object_keys (filterParams s)"
    using Cons.prems by (simp add: keys_set_prop)
  with Cons.prems have "set ks \<subseteq> set (Object_keys (filterParams ?s1))" by simp
  from Cons.IH[OF this] 1 show ?case by (auto simp: Let_def split: prod.splits)
qed

lemma reset_keys:
  assumes "Object_keys (filterParams s) = filter_keys"
  shows "Object_keys (filterParams (fst (resetParamsAndRefresh fl desc s))) = filter_keys"
proof -
  let ?s0 = "s\<lparr>serarchKeyword := []\<rparr>"
  have k0: "set filter_keys \<subseteq> set (Object_keys (filterParams ?s0))"
    using assms by simp
  show ?thesis
  proof (cases "isEqual (toRaw (filterParams ?s0)) (DEFAULT_FILTER_PARAMS desc)")
    case True
    then show ?thesis using assms
      by (simp add: resetParamsAndRefresh_def Let_def fetchData_filterParams)
  next
    case False
    show ?thesis
    proof (cases fl)
      case Sync
      with False show ?thesis
        using assign_each_keys[OF k0, of "DEFAULT_FILTER_PARAMS desc"] assms
        by (simp add: resetParamsAndRefresh_def Let_def keys_DEFAULT)
    next
      case Batched
      with False show ?thesis
        using assign_quiet_keys[OF k0, of "DEFAULT_FILTER_PARAMS desc"] assms
        by (auto simp: resetParamsAndRefresh_def Let_def keys_DEFAULT fetchData_filterParams
            split: prod.splits)
    qed
  qed
qed

lemma handle_keys:
  assumes "Object_keys (filterParams s) = filter_keys"
      and "handle fl desc e s = Some (s', out)"
  shows "Object_keys (filterParams s') = filter_keys"
proof (cases e)
  case (Select_onChange w v)
  with assms show ?thesis
    using assign_filterParams[of "select_key w" v s] select_key_in[of w]
    by (auto simp: keys_set_prop)
next
  case Reset_onClick
  with assms show ?thesis using reset_keys[OF assms(1), of fl desc] by auto
qed (use assms in \<open>auto simp: fetchData_def handleSelect_def handleStateChange_def onOk_def
      fetchData_then_eq fetchCategories_then_def fetchTags_then_def refreshData_def
      split: if_splits\<close>)

lemma step_keys:
  assumes "Object_keys (filterParams s) = filter_keys"
      and "step fl desc s e = Some (s', out)"
  shows "Object_keys (filterParams s') = filter_keys"
proof (cases "e = Mounted")
  case True
  with assms show ?thesis
    by (auto simp: step_def onMounted_def and_then_def fetchData_def fetchCategories_def
        fetchTags_def split: if_splits)
next
  case False
  with assms show ?thesis
    by (auto simp: step_def split: if_splits dest: handle_keys)
qed

lemma run_keys:
  "Object_keys (filterParams s) = filter_keys \<Longrightarrow> run fl desc s es = Some (s', out) \<Longrightarrow>
   Object_keys (filterParams s') = filter_keys"
proof (induction es arbitrary: s out)
  case Nil
  then show ?case by simp
next
  case (Cons e es)
  from Cons.prems(2) obtain s1 out1 out2 where
    st: "step fl desc s e = Some (s1, out1)" and rn: "run fl desc s1 es = Some (s', out2)"
    by (auto split: option.splits)
  from step_keys[OF Cons.prems(1) st] rn show ?case by (rule Cons.IH)
qed

lemma not_filter_key: "k \<notin> set filter_keys \<Longrightarrow> Object_keys fp = filter_keys \<Longrightarrow> map_of fp k = None"
  using in_keys_iff[of k fp] by simp

section \<open>Unfolding the model on concrete inputs\<close>

lemmas object_defs =
  Object_keys_def Reflect_get_def set_prop_def Reflect_deleteProperty_def copy_prop_def
  spread_def isEqual_def toRaw_def Boolean_str_def SELECT_ALL_VALUE_def
  DEFAULT_FILTER_PARAMS_def delete_if_ALL_def getParams_of_def

lemmas handler_defs =
  and_then_def promise_started_def promise_settled_def fetchCategories_def
  fetchCategories_then_def fetchTags_def fetchTags_then_def handleSelect_def fetchData_def
  fetchData_then_eq filterParams_assign_def resetParamsAndRefresh_def refreshData_def
  handleStateChange_def onOk_def onMounted_def DropdownMenu_options_def
  DropdownMenu_disabled_def step_def initial_def

lemmas eval_defs = object_defs handler_defs

section \<open>The invariant of the page\<close>

lemma page_inv_initial: "page_inv (initial desc)"
  by (simp add: page_inv_def initial_def)

lemma page_inv_fetchData:
  "page_inv s \<Longrightarrow> mounted s \<Longrightarrow>
   page_inv (fst (fetchData params s)) \<and> mounted (fst (fetchData params s))"
  by (simp add: page_inv_def fetchData_def promise_started_def)

lemma mounted_fetchData: "mounted (fst (fetchData params s)) = mounted s"
  by (simp add: fetchData_def)

lemma page_inv_assign:
  "page_inv s \<Longrightarrow> mounted s \<Longrightarrow>
   page_inv (fst (filterParams_assign k v s)) \<and> mounted (fst (filterParams_assign k v s))"
  by (simp add: page_inv_def filterParams_assign_def Let_def fetchData_def promise_started_def)

lemma page_inv_assign_each:
  "page_inv s \<Longrightarrow> mounted s \<Longrightarrow>
   page_inv (fst (assign_each src ks s)) \<and> mounted (fst (assign_each src ks s))"
proof (induction ks arbitrary: s)
  case Nil
  then show ?case by simp
next
  case (Cons k ks)
  from page_inv_assign[OF Cons.prems, of k "Reflect_get src k"]
  show ?case by (simp add: and_then_fst Cons.IH)
qed

lemma page_inv_assign_quiet:
  "page_inv s \<Longrightarrow> mounted s \<Longrightarrow>
   page_inv (fst (assign_quiet src ks s)) \<and> mounted (fst (assign_quiet src ks s))"
proof (induction ks arbitrary: s)
  case Nil
  then show ?case by simp
next
  case (Cons k ks)
  let ?s1 = "s\<lparr>filterParams := set_prop k (Reflect_get src k) (filterParams s)\<rparr>"
  from Cons.prems have "page_inv ?s1" "mounted ?s1" by (simp_all add: page_inv_def)
  from Cons.IH[OF this] show ?case by (auto simp: Let_def split: prod.splits)
qed

lemma page_inv_reset:
  assumes "page_inv s" "mounted s"
  shows "page_inv (fst (resetParamsAndRefresh fl desc s)) \<and>
         mounted (fst (resetParamsAndRefresh fl desc s))"
proof -
  let ?s0 = "s\<lparr>serarchKeyword := []\<rparr>"
  from assms have s0: "page_inv ?s0" "mounted ?s0" by (simp_all add: page_inv_def)
  show ?thesis
  proof (cases "isEqual (toRaw (filterParams ?s0)) (DEFAULT_FILTER_PARAMS desc)")
    case True
    with page_inv_fetchData[OF s0] show ?thesis
      by (simp add: resetParamsAndRefresh_def Let_def)
  next
    case False
    show ?thesis
    proof (cases fl)
      case Sync
      with False page_inv_assign_each[OF s0] show ?thesis
        by (simp add: resetParamsAndRefresh_def Let_def)
    next
      case Batched
      with False page_inv_assign_quiet[OF s0, of "DEFAULT_FILTER_PARAMS desc" filter_keys]
      show ?thesis
        by (auto simp: resetParamsAndRefresh_def Let_def keys_DEFAULT page_inv_fetchData
            split: prod.splits)
    qed
  qed
qed

lemma page_inv_handle:
  assumes "page_inv s" "mounted s" "handle fl desc e s = Some (s', out)"
  shows "page_inv s' \<and> mounted s'"
proof (cases e)
  case Mounted
  with assms show ?thesis by simp
next
  case (Select_onChange w v)
  with assms page_inv_assign[OF assms(1,2), of "select_key w" v] show ?thesis by auto
next
  case (Input_onChange kw)
  with assms show ?thesis by (auto simp: page_inv_def)
next
  case Input_onSearch
  with assms page_inv_fetchData[OF assms(1,2), of None] show ?thesis by auto
next
  case Reset_onClick
  with assms page_inv_reset[OF assms(1,2), of fl desc] show ?thesis by auto
next
  case (Table_onSelecte ids)
  with assms show ?thesis by (auto simp: page_inv_def handleSelect_def)
next
  case (Menu_onClick n)
  with assms show ?thesis
    by (auto simp: page_inv_def handleStateChange_def split: if_splits)
next
  case (Table_onUpdateState a st)
  with assms show ?thesis by (auto simp: page_inv_def handleStateChange_def)
next
  case (Table_onPagination page pageSize)
  with assms
    page_inv_fetchData[OF assms(1,2), of "Some [(''page'', JNum page), (''per_page'', JNum pageSize)]"]
  show ?thesis by auto
next
  case (Modal_onOk i)
  with assms show ?thesis by (auto simp: page_inv_def onOk_def split: if_splits)
next
  case (Modal_close i)
  with assms show ?thesis by (auto simp: page_inv_def split: if_splits)
next
  case (GetArticles_resolved result)
  with assms show ?thesis
    by (auto simp: page_inv_def fetchData_then_eq promise_settled_def split: if_splits)
next
  case GetArticles_rejected
  with assms show ?thesis by (auto simp: page_inv_def promise_settled_def split: if_splits)
next
  case (GetCategories_resolved tree)
  with assms show ?thesis
    by (auto simp: page_inv_def fetchCategories_then_def promise_settled_def split: if_splits)
next
  case GetCategories_rejected
  with assms show ?thesis by (auto simp: page_inv_def promise_settled_def split: if_splits)
next
  case (GetTags_resolved result_data)
  with assms show ?thesis
    by (auto simp: page_inv_def fetchTags_then_def promise_settled_def split: if_splits)
next
  case GetTags_rejected
  with assms show ?thesis by (auto simp: page_inv_def promise_settled_def split: if_splits)
next
  case Patch_resolved
  let ?s1 = "s\<lparr>pending_patches := pending_patches s - 1\<rparr>"
  from assms(1,2) have s1: "page_inv ?s1" "mounted ?s1"
    by (simp_all add: page_inv_def)
  obtain p where p: "refreshData ?s1 = fetchData (Some p) ?s1"
    by (simp add: refreshData_def)
  from Patch_resolved assms(3) have "refreshData ?s1 = (s', out)"
    by (simp split: if_splits)
  with p have "s' = fst (fetchData (Some p) ?s1)" by simp
  with page_inv_fetchData[OF s1, of "Some p"] show ?thesis by simp
next
  case Patch_rejected
  with assms show ?thesis by (auto simp: page_inv_def split: if_splits)
qed

lemma page_inv_step:
  assumes "page_inv s" "step fl desc s e = Some (s', out)"
  shows "page_inv s' \<and> mounted s'"
proof (cases "e = Mounted")
  case True
  with assms show ?thesis
    by (auto simp: step_def page_inv_def onMounted_def and_then_def fetchData_def
        fetchCategories_def fetchTags_def promise_started_def split: if_splits)
next
  case False
  with assms show ?thesis
    by (auto simp: step_def split: if_splits dest: page_inv_handle)
qed

lemma page_inv_run:
  "page_inv s \<Longrightarrow> run fl desc s es = Some (s', out) \<Longrightarrow> page_inv s'"
proof (induction es arbitrary: s out)
  case Nil
  then show ?case by simp
next
  case (Cons e es)
  from Cons.prems(2) obtain s1 out1 out2 where
    st: "step fl desc s e = Some (s1, out1)" and rn: "run fl desc s1 es = Some (s', out2)"
    by (auto split: option.splits)
  from page_inv_step[OF Cons.prems(1) st] have "page_inv s1" by simp
  from this rn show ?case by (rule Cons.IH)
qed

lemma out_fetchData: "snd (fetchData params s) = [GetArticles (getParams_of params (filterParams s) (serarchKeyword s))]"
  by (simp add: fetchData_def)

lemma and_then_snd: "snd (and_then f g s) = snd (f s) @ snd (g (fst (f s)))"
  by (simp add: and_then_def split: prod.splits)

lemma no_patch_assign: "filter is_patch (snd (filterParams_assign k v s)) = []"
  by (simp add: filterParams_assign_def Let_def fetchData_def)

lemma no_patch_assign_each: "filter is_patch (snd (assign_each src ks s)) = []"
  by (induction ks arbitrary: s) (simp_all add: and_then_snd no_patch_assign)

lemma no_patch_reset: "filter is_patch (snd (resetParamsAndRefresh fl desc s)) = []"
  by (cases fl)
    (auto simp: resetParamsAndRefresh_def Let_def fetchData_def no_patch_assign_each
      split: prod.splits)

lemma patch_handle:
  assumes "handle fl desc e s = Some (s', out)"
  shows "filter is_patch out =
           (case e of Modal_onOk i \<Rightarrow> [PatchArticlesState (fst (modals s ! i)) (snd (modals s ! i))]
            | _ \<Rightarrow> [])"
proof (cases e)
  case (Select_onChange w v)
  with assms no_patch_assign[of "select_key w" v s] show ?thesis by auto
next
  case Reset_onClick
  with assms no_patch_reset[of fl desc s] show ?thesis by auto
qed (use assms in \<open>auto simp: handler_defs split: if_splits\<close>)

lemma patch_step:
  assumes "step fl desc s e = Some (s', out)"
  shows "filter is_patch out =
           (case e of Modal_onOk i \<Rightarrow> [PatchArticlesState (fst (modals s ! i)) (snd (modals s ! i))]
            | _ \<Rightarrow> [])"
proof (cases "e = Mounted")
  case True
  with assms show ?thesis
    by (auto simp: step_def onMounted_def and_then_def fetchData_def
        fetchCategories_def fetchTags_def split: if_splits)
next
  case False
  with assms have "handle fl desc e s = Some (s', out)"
    by (auto simp: step_def split: if_splits)
  then show ?thesis by (rule patch_handle)
qed

lemma patch_count_step:
  assumes "step fl desc s e = Some (s', out)"
  shows "length (filter is_patch out) = (if is_confirmation e then 1 else 0)"
  using patch_step[OF assms] by (cases e) simp_all

lemma run_ConsD:
  assumes "run fl desc s (e # es) = Some (s', out)"
  obtains s1 out1 out2 where "step fl desc s e = Some (s1, out1)"
    and "run fl desc s1 es = Some (s', out2)" and "out = out1 @ out2"
proof (cases "step fl desc s e")
  case None
  with assms show ?thesis by simp
next
  case (Some a)
  then obtain s1 out1 where st: "step fl desc s e = Some (s1, out1)" by (cases a) simp
  show ?thesis
  proof (cases "run fl desc s1 es")
    case None
    with assms st show ?thesis by simp
  next
    case (Some b)
    then obtain s2 out2 where "run fl desc s1 es = Some (s2, out2)" by (cases b) simp
    with assms st that show ?thesis by simp
  qed
qed

lemma patch_count_run:
  "run fl desc s es = Some (s', out) \<Longrightarrow>
   length (filter is_patch out) = length (filter is_confirmation es)"
proof (induction es arbitrary: s out)
  case Nil
  then show ?case by simp
next
  case (Cons e es)
  from Cons.prems obtain s1 out1 out2 where
    st: "step fl desc s e = Some (s1, out1)" and rn: "run fl desc s1 es = Some (s', out2)"
    and out: "out = out1 @ out2"
    by (rule run_ConsD)
  from patch_count_step[OF st] Cons.IH[OF rn] out show ?case by simp
qed

section \<open>What a fetch and a write to the filter params leave alone\<close>

lemma frame_refl: "frame s s"
  by (simp add: frame_def)

lemma frame_trans: "frame s s1 \<Longrightarrow> frame s1 s2 \<Longrightarrow> frame s s2"
  by (simp add: frame_def)

lemma frame_fetchData: "frame s (fst (fetchData params s))"
  by (simp add: frame_def fetchData_def)

lemma frame_filterParams: "frame s (s\<lparr>filterParams := fp\<rparr>)"
  by (simp add: frame_def)

lemma frame_serarchKeyword: "frame s (s\<lparr>serarchKeyword := kw\<rparr>)"
  by (simp add: frame_def)

lemma frame_assign: "frame s (fst (filterParams_assign k v s))"
  by (simp add: frame_def filterParams_assign_def Let_def fetchData_def)

lemma frame_assign_each: "frame s (fst (assign_each src ks s))"
proof (induction ks arbitrary: s)
  case Nil
  then show ?case by (simp add: frame_refl)
next
  case (Cons k ks)
  from frame_trans[OF frame_assign Cons.IH] show ?case by (simp add: and_then_fst)
qed

lemma frame_assign_quiet: "frame s (fst (assign_quiet src ks s))"
proof (induction ks arbitrary: s)
  case Nil
  then show ?case by (simp add: frame_refl)
next
  case (Cons k ks)
  let ?s1 = "s\<lparr>filterParams := set_prop k (Reflect_get src k) (filterParams s)\<rparr>"
  have eq: "fst (assign_quiet src (k # ks) s) = fst (assign_quiet src ks ?s1)"
    by (simp add: Let_def split: prod.splits)
  have a: "frame s ?s1" by (rule frame_filterParams)
  have b: "frame ?s1 (fst (assign_quiet src ks ?s1))" by (rule Cons.IH)
  from frame_trans[OF a b] eq show ?case by simp
qed

lemma frame_reset: "frame s (fst (resetParamsAndRefresh fl desc s))"
proof -
  let ?s0 = "s\<lparr>serarchKeyword := []\<rparr>"
  let ?D = "DEFAULT_FILTER_PARAMS desc"
  have f0: "frame s ?s0" by (rule frame_serarchKeyword)
  show ?thesis
  proof (cases "isEqual (toRaw (filterParams ?s0)) ?D")
    case True
    with frame_trans[OF f0 frame_fetchData] show ?thesis
      by (simp add: resetParamsAndRefresh_def Let_def)
  next
    case False
    note neq = this
    show ?thesis
    proof (cases fl)
      case Sync
      with neq frame_trans[OF f0 frame_assign_each] show ?thesis
        by (simp add: resetParamsAndRefresh_def Let_def)
    next
      case Batched
      let ?s1 = "fst (assign_quiet ?D (Object_keys ?D) ?s0)"
      have f1: "frame s ?s1" by (rule frame_trans[OF f0 frame_assign_quiet])
      have f2: "frame s (fst (fetchData None ?s1))" by (rule frame_trans[OF f1 frame_fetchData])
      from neq Batched have
        "fst (resetParamsAndRefresh fl desc s) =
           (if snd (assign_quiet ?D (Object_keys ?D) ?s0) then fst (fetchData None ?s1) else ?s1)"
        by (simp add: resetParamsAndRefresh_def Let_def split: prod.splits)
      with f1 f2 show ?thesis by simp
    qed
  qed
qed

section \<open>Steps and runs\<close>

lemma reach_inv:
  assumes "run fl desc (initial desc) es = Some (s, out)"
  shows "page_inv s" "Object_keys (filterParams s) = filter_keys"
  using page_inv_run[OF page_inv_initial assms] run_keys[OF keys_initial assms] by simp_all

lemma handle_frame:
  assumes "handle fl desc e s = Some (s', out)"
  shows "pending_patches s' =
           (case e of Modal_onOk i \<Rightarrow> Suc (pending_patches s)
            | Patch_resolved \<Rightarrow> pending_patches s - 1
            | Patch_rejected \<Rightarrow> pending_patches s - 1
            | _ \<Rightarrow> pending_patches s)"
    and "modals s' =
           (case e of Menu_onClick n \<Rightarrow> modals s @ [(selectedIds s, DropdownMenu_options ! n)]
            | Table_onUpdateState a st \<Rightarrow> modals s @ [([article_id a], st)]
            | Modal_close i \<Rightarrow> take i (modals s) @ drop (Suc i) (modals s)
            | _ \<Rightarrow> modals s)"
proof -
  have "pending_patches s' =
           (case e of Modal_onOk i \<Rightarrow> Suc (pending_patches s)
            | Patch_resolved \<Rightarrow> pending_patches s - 1
            | Patch_rejected \<Rightarrow> pending_patches s - 1
            | _ \<Rightarrow> pending_patches s) \<and>
        modals s' =
           (case e of Menu_onClick n \<Rightarrow> modals s @ [(selectedIds s, DropdownMenu_options ! n)]
            | Table_onUpdateState a st \<Rightarrow> modals s @ [([article_id a], st)]
            | Modal_close i \<Rightarrow> take i (modals s) @ drop (Suc i) (modals s)
            | _ \<Rightarrow> modals s)"
  proof (cases e)
    case (Select_onChange w v)
    with assms frame_assign[of s "select_key w" v] show ?thesis by (auto simp: frame_def)
  next
    case Reset_onClick
    with assms frame_reset[of s fl desc] show ?thesis by (auto simp: frame_def)
  qed (use assms in \<open>auto simp: fetchData_def handleSelect_def handleStateChange_def onOk_def
        fetchData_then_eq fetchCategories_then_def fetchTags_then_def refreshData_def
        split: if_splits\<close>)
  then show "pending_patches s' =
           (case e of Modal_onOk i \<Rightarrow> Suc (pending_patches s)
            | Patch_resolved \<Rightarrow> pending_patches s - 1
            | Patch_rejected \<Rightarrow> pending_patches s - 1
            | _ \<Rightarrow> pending_patches s)"
    and "modals s' =
           (case e of Menu_onClick n \<Rightarrow> modals s @ [(selectedIds s, DropdownMenu_options ! n)]
            | Table_onUpdateState a st \<Rightarrow> modals s @ [([article_id a], st)]
            | Modal_close i \<Rightarrow> take i (modals s) @ drop (Suc i) (modals s)
            | _ \<Rightarrow> modals s)"
    by simp_all
qed

lemma step_frame:
  assumes "step fl desc s e = Some (s', out)"
  shows "pending_patches s' =
           (case e of Modal_onOk i \<Rightarrow> Suc (pending_patches s)
            | Patch_resolved \<Rightarrow> pending_patches s - 1
            | Patch_rejected \<Rightarrow> pending_patches s - 1
            | _ \<Rightarrow> pending_patches s)"
    and "modals s' =
           (case e of Menu_onClick n \<Rightarrow> modals s @ [(selectedIds s, DropdownMenu_options ! n)]
            | Table_onUpdateState a st \<Rightarrow> modals s @ [([article_id a], st)]
            | Modal_close i \<Rightarrow> take i (modals s) @ drop (Suc i) (modals s)
            | _ \<Rightarrow> modals s)"
proof -
  show "pending_patches s' =
           (case e of Modal_onOk i \<Rightarrow> Suc (pending_patches s)
            | Patch_resolved \<Rightarrow> pending_patches s - 1
            | Patch_rejected \<Rightarrow> pending_patches s - 1
            | _ \<Rightarrow> pending_patches s)"
  proof (cases "e = Mounted")
    case True
    with assms show ?thesis
      by (auto simp: step_def onMounted_def and_then_def fetchData_def fetchCategories_def
          fetchTags_def split: if_splits)
  next
    case False
    with assms have "handle fl desc e s = Some (s', out)"
      by (auto simp: step_def split: if_splits)
    then show ?thesis by (rule handle_frame(1))
  qed
  show "modals s' =
           (case e of Menu_onClick n \<Rightarrow> modals s @ [(selectedIds s, DropdownMenu_options ! n)]
            | Table_onUpdateState a st \<Rightarrow> modals s @ [([article_id a], st)]
            | Modal_close i \<Rightarrow> take i (modals s) @ drop (Suc i) (modals s)
            | _ \<Rightarrow> modals s)"
  proof (cases "e = Mounted")
    case True
    with assms show ?thesis
      by (auto simp: step_def onMounted_def and_then_def fetchData_def fetchCategories_def
          fetchTags_def split: if_splits)
  next
    case False
    with assms have "handle fl desc e s = Some (s', out)"
      by (auto simp: step_def split: if_splits)
    then show ?thesis by (rule handle_frame(2))
  qed
qed

lemma patch_origin:
  assumes "step fl desc s e = Some (s', out)" and "PatchArticlesState ids st \<in> set out"
  shows "\<exists>i. e = Modal_onOk i \<and> i < length (modals s) \<and> modals s ! i = (ids, st)"
proof -
  from assms(2) have mem: "PatchArticlesState ids st \<in> set (filter is_patch out)" by simp
  show ?thesis
  proof (cases e)
    case (Modal_onOk i)
    with patch_step[OF assms(1)] mem have "fst (modals s ! i) = ids" "snd (modals s ! i) = st"
      by simp_all
    moreover from Modal_onOk assms(1) have "i < length (modals s)"
      by (auto simp: step_def split: if_splits)
    ultimately show ?thesis using Modal_onOk by (auto simp: prod_eq_iff)
  qed (use patch_step[OF assms(1)] mem in simp_all)
qed

section \<open>The requests of the categories and of the tags\<close>

text \<open>
  A write to the filter params and a reset ask for list fetches only, so the categories
  and the tags are asked for in the step of the mount and in no other.
\<close>

lemma assign_only_fetches:
  "x \<in> set (snd (filterParams_assign k v s)) \<Longrightarrow> \<exists>q. x = GetArticles q"
  by (auto simp: filterParams_assign_def Let_def fetchData_def split: if_splits)

lemma assign_each_only_fetches:
  "x \<in> set (snd (assign_each src ks s)) \<Longrightarrow> \<exists>q. x = GetArticles q"
proof (induction ks arbitrary: s)
  case Nil
  then show ?case by simp
next
  case (Cons k ks)
  then show ?case by (auto simp: and_then_snd dest: assign_only_fetches)
qed

lemma reset_only_fetches:
  "x \<in> set (snd (resetParamsAndRefresh fl desc s)) \<Longrightarrow> \<exists>q. x = GetArticles q"
  by (cases fl)
    (auto simp: resetParamsAndRefresh_def Let_def fetchData_def
      split: prod.splits if_splits dest: assign_each_only_fetches)

lemma only_fetches_filter:
  assumes "\<forall>x \<in> set out. \<exists>q. x = GetArticles q"
  shows "filter is_categories out = []" "filter is_tags out = []"
  using assms by (auto simp: filter_empty_conv)

lemma handle_no_lists:
  assumes "handle fl desc e s = Some (s', out)"
  shows "filter is_categories out = [] \<and> filter is_tags out = []"
proof (cases e)
  case (Select_onChange w v)
  with assms have "snd (filterParams_assign (select_key w) v s) = out" by simp
  then have "\<forall>x \<in> set out. \<exists>q. x = GetArticles q"
    using assign_only_fetches by blast
  then show ?thesis by (simp add: only_fetches_filter)
next
  case Reset_onClick
  with assms have "snd (resetParamsAndRefresh fl desc s) = out" by simp
  then have "\<forall>x \<in> set out. \<exists>q. x = GetArticles q"
    using reset_only_fetches by blast
  then show ?thesis by (simp add: only_fetches_filter)
qed (use assms in \<open>auto simp: fetchData_def handleStateChange_def onOk_def fetchData_then_eq
      refreshData_def split: if_splits\<close>)

lemma handle_mounted:
  assumes "handle fl desc e s = Some (s', out)"
  shows "mounted s' = mounted s"
proof (cases e)
  case (Select_onChange w v)
  with assms frame_assign[of s "select_key w" v] show ?thesis by (auto simp: frame_def)
next
  case Reset_onClick
  with assms frame_reset[of s fl desc] show ?thesis by (auto simp: frame_def)
qed (use assms in \<open>auto simp: fetchData_def handleSelect_def handleStateChange_def onOk_def
      fetchData_then_eq fetchCategories_then_def fetchTags_then_def refreshData_def
      split: if_splits\<close>)

lemma lists_step:
  assumes "step fl desc s e = Some (s', out)"
  shows "length (filter is_categories out) = (if e = Mounted then 1 else 0)"
    and "length (filter is_tags out) = (if e = Mounted then 1 else 0)"
    and "mounted s'" and "mounted s \<longleftrightarrow> e \<noteq> Mounted"
proof -
  have "length (filter is_categories out) = (if e = Mounted then 1 else 0) \<and>
        length (filter is_tags out) = (if e = Mounted then 1 else 0) \<and>
        mounted s' \<and> (mounted s \<longleftrightarrow> e \<noteq> Mounted)"
  proof (cases "e = Mounted")
    case True
    with assms show ?thesis
      by (auto simp: step_def onMounted_def and_then_def fetchData_def fetchCategories_def
          fetchTags_def split: if_splits)
  next
    case False
    with assms have h: "handle fl desc e s = Some (s', out)" and m: "mounted s"
      by (auto simp: step_def split: if_splits)
    from handle_mounted[OF h] m handle_no_lists[OF h] False show ?thesis by simp
  qed
  then show "length (filter is_categories out) = (if e = Mounted then 1 else 0)"
    and "length (filter is_tags out) = (if e = Mounted then 1 else 0)"
    and "mounted s'" and "mounted s \<longleftrightarrow> e \<noteq> Mounted"
    by simp_all
qed

lemma lists_run:
  "run fl desc s es = Some (s', out) \<Longrightarrow>
   length (filter is_categories out) + (if mounted s then 1 else 0) = (if mounted s' then 1 else 0) \<and>
   length (filter is_tags out) + (if mounted s then 1 else 0) = (if mounted s' then 1 else 0)"
proof (induction es arbitrary: s out)
  case Nil
  then show ?case by simp
next
  case (Cons e es)
  from Cons.prems obtain s1 out1 out2 where
    st: "step fl desc s e = Some (s1, out1)" and rn: "run fl desc s1 es = Some (s', out2)"
    and out: "out = out1 @ out2"
    by (rule run_ConsD)
  from lists_step[OF st] Cons.IH[OF rn] out show ?case
    by (auto split: if_splits)
qed

section \<open>Restoring the defaults\<close>

text \<open>
  What the loop of \<open>resetParamsAndRefresh\<close> does to the filter params and which fetches
  follow it, for a watcher that runs at each write (\<open>assign_each\<close>) and for one that runs
  once after the block (\<open>assign_quiet\<close>).
\<close>

lemma isEqual_iff: "isEqual a b \<longleftrightarrow> map_of a = map_of b"
proof
  assume eq: "isEqual a b"
  show "map_of a = map_of b"
  proof
    fix x
    show "map_of a x = map_of b x"
    proof (cases "x \<in> set (Object_keys a) \<or> x \<in> set (Object_keys b)")
      case True
      with eq show ?thesis by (auto simp: isEqual_def list_all_iff)
    next
      case False
      then show ?thesis by (simp add: in_keys_iff)
    qed
  qed
next
  assume "map_of a = map_of b"
  then show "isEqual a b" by (simp add: isEqual_def list_all_iff)
qed

lemma Reflect_get_key: "k \<in> set (Object_keys ob) \<Longrightarrow> map_of ob k = Some (Reflect_get ob k)"
  by (auto simp: in_keys_iff Reflect_get_def)

lemma set_prop_same: "map_of ob k = Some v \<Longrightarrow> set_prop k v ob = ob"
  by (simp add: set_prop_def update_triv)

lemma assign_unchanged:
  "map_of (filterParams s) k = Some v \<Longrightarrow> filterParams_assign k v s = (s, [])"
  by (simp add: filterParams_assign_def Let_def set_prop_same)

lemma assign_changed:
  "map_of (filterParams s) k \<noteq> Some v \<Longrightarrow>
   filterParams_assign k v s =
     fetchData None (s\<lparr>filterParams := set_prop k v (filterParams s)\<rparr>)"
  by (simp add: filterParams_assign_def Let_def)

lemma assign_serarchKeyword: "serarchKeyword (fst (filterParams_assign k v s)) = serarchKeyword s"
  by (simp add: filterParams_assign_def Let_def fetchData_def)

lemma assign_each_serarchKeyword:
  "serarchKeyword (fst (assign_each src ks s)) = serarchKeyword s"
  by (induction ks arbitrary: s) (simp_all add: and_then_fst assign_serarchKeyword)

lemma assign_each_map_of:
  "map_of (filterParams (fst (assign_each src ks s))) x =
     (if x \<in> set ks then Some (Reflect_get src x) else map_of (filterParams s) x)"
  by (induction ks arbitrary: s)
     (simp_all add: and_then_fst assign_filterParams map_of_set_prop)

lemma assign_out_length:
  "length (snd (filterParams_assign k v s)) = (if map_of (filterParams s) k = Some v then 0 else 1)"
  by (simp add: filterParams_assign_def Let_def fetchData_def)

lemma assign_each_count:
  "distinct ks \<Longrightarrow>
   length (snd (assign_each src ks s)) =
     length (filter (\<lambda>k. map_of (filterParams s) k \<noteq> Some (Reflect_get src k)) ks)"
proof (induction ks arbitrary: s)
  case Nil
  then show ?case by simp
next
  case (Cons k ks)
  let ?s1 = "fst (filterParams_assign k (Reflect_get src k) s)"
  have same: "\<forall>x \<in> set ks. map_of (filterParams ?s1) x = map_of (filterParams s) x"
    using Cons.prems by (auto simp: assign_filterParams map_of_set_prop)
  have "filter (\<lambda>x. map_of (filterParams ?s1) x \<noteq> Some (Reflect_get src x)) ks =
        filter (\<lambda>x. map_of (filterParams s) x \<noteq> Some (Reflect_get src x)) ks"
    using same by (intro filter_cong) simp_all
  with Cons.IH[of ?s1] Cons.prems show ?case
    by (simp add: and_then_snd assign_out_length)
qed

lemma assign_each_quiet:
  "snd (assign_each src ks s) = [] \<Longrightarrow> fst (assign_each src ks s) = s"
proof (induction ks arbitrary: s)
  case Nil
  then show ?case by simp
next
  case (Cons k ks)
  from Cons.prems have o1: "snd (filterParams_assign k (Reflect_get src k) s) = []"
    and o2: "snd (assign_each src ks (fst (filterParams_assign k (Reflect_get src k) s))) = []"
    by (simp_all add: and_then_snd)
  from o1 have "map_of (filterParams s) k = Some (Reflect_get src k)"
    using assign_out_length[of k "Reflect_get src k" s] by (simp split: if_splits)
  then have "fst (filterParams_assign k (Reflect_get src k) s) = s"
    by (simp add: assign_unchanged)
  with o2 Cons.IH[of s] show ?case by (simp add: and_then_fst)
qed

lemma assign_each_last:
  "snd (assign_each src ks s) \<noteq> [] \<Longrightarrow>
   last (snd (assign_each src ks s)) =
     GetArticles (getParams_of None (filterParams (fst (assign_each src ks s))) (serarchKeyword s))"
proof (induction ks arbitrary: s)
  case Nil
  then show ?case by simp
next
  case (Cons k ks)
  let ?v = "Reflect_get src k"
  let ?s1 = "fst (filterParams_assign k ?v s)"
  show ?case
  proof (cases "snd (assign_each src ks ?s1) = []")
    case True
    with Cons.prems have ne: "snd (filterParams_assign k ?v s) \<noteq> []"
      by (simp add: and_then_snd)
    then have ch: "map_of (filterParams s) k \<noteq> Some ?v"
      using assign_out_length[of k ?v s] by (auto split: if_splits)
    have "snd (filterParams_assign k ?v s) =
        [GetArticles (getParams_of None (set_prop k ?v (filterParams s)) (serarchKeyword s))]"
      using ch by (simp add: assign_changed fetchData_def)
    moreover have "filterParams (fst (assign_each src (k # ks) s)) = set_prop k ?v (filterParams s)"
      using assign_each_quiet[OF True] by (simp add: and_then_fst assign_filterParams)
    ultimately show ?thesis using True by (simp add: and_then_snd)
  next
    case False
    from Cons.IH[OF False] False show ?thesis
      by (simp add: and_then_snd and_then_fst assign_serarchKeyword)
  qed
qed

lemma assign_each_fetches:
  "set ks \<subseteq> set (Object_keys (filterParams s)) \<Longrightarrow> x \<in> set (snd (assign_each src ks s)) \<Longrightarrow>
   \<exists>fp. x = GetArticles (getParams_of None fp (serarchKeyword s)) \<and>
        Object_keys fp = Object_keys (filterParams s)"
proof (induction ks arbitrary: s)
  case Nil
  then show ?case by simp
next
  case (Cons k ks)
  let ?v = "Reflect_get src k"
  let ?s1 = "fst (filterParams_assign k ?v s)"
  from Cons.prems(1) have k1: "Object_keys (filterParams ?s1) = Object_keys (filterParams s)"
    by (simp add: assign_filterParams keys_set_prop)
  from Cons.prems(2) consider "x \<in> set (snd (filterParams_assign k ?v s))"
    | "x \<in> set (snd (assign_each src ks ?s1))"
    by (auto simp: and_then_snd)
  then show ?case
  proof cases
    case 1
    then have "x = GetArticles (getParams_of None (set_prop k ?v (filterParams s)) (serarchKeyword s))"
      by (auto simp: filterParams_assign_def Let_def fetchData_def split: if_splits)
    with Cons.prems(1) show ?thesis by (auto simp: keys_set_prop)
  next
    case 2
    from Cons.prems(1) k1 have "set ks \<subseteq> set (Object_keys (filterParams ?s1))" by simp
    from Cons.IH[OF this 2] k1 show ?thesis by (simp add: assign_serarchKeyword)
  qed
qed

lemma assign_quiet_map_of:
  "map_of (filterParams (fst (assign_quiet src ks s))) x =
     (if x \<in> set ks then Some (Reflect_get src x) else map_of (filterParams s) x)"
proof (induction ks arbitrary: s)
  case Nil
  then show ?case by simp
next
  case (Cons k ks)
  let ?s1 = "s\<lparr>filterParams := set_prop k (Reflect_get src k) (filterParams s)\<rparr>"
  have eq: "fst (assign_quiet src (k # ks) s) = fst (assign_quiet src ks ?s1)"
    by (simp add: Let_def split: prod.splits)
  show ?case unfolding eq Cons.IH by (simp add: map_of_set_prop)
qed

lemma assign_quiet_changed:
  "distinct ks \<Longrightarrow>
   snd (assign_quiet src ks s) =
     (\<exists>k \<in> set ks. map_of (filterParams s) k \<noteq> Some (Reflect_get src k))"
proof (induction ks arbitrary: s)
  case Nil
  then show ?case by simp
next
  case (Cons k ks)
  let ?s1 = "s\<lparr>filterParams := set_prop k (Reflect_get src k) (filterParams s)\<rparr>"
  have eq: "snd (assign_quiet src (k # ks) s) =
      (map_of (filterParams s) k \<noteq> Some (Reflect_get src k) \<or> snd (assign_quiet src ks ?s1))"
    by (simp add: Let_def split: prod.splits)
  have same: "\<forall>x \<in> set ks. map_of (filterParams ?s1) x = map_of (filterParams s) x"
    using Cons.prems by (auto simp: map_of_set_prop)
  from Cons.prems have "distinct ks" by simp
  from Cons.IH[OF this, of ?s1] same show ?case unfolding eq by auto
qed

lemma assign_quiet_serarchKeyword:
  "serarchKeyword (fst (assign_quiet src ks s)) = serarchKeyword s"
proof (induction ks arbitrary: s)
  case Nil
  then show ?case by simp
next
  case (Cons k ks)
  let ?s1 = "s\<lparr>filterParams := set_prop k (Reflect_get src k) (filterParams s)\<rparr>"
  have eq: "fst (assign_quiet src (k # ks) s) = fst (assign_quiet src ks ?s1)"
    by (simp add: Let_def split: prod.splits)
  show ?case unfolding eq Cons.IH by simp
qed

lemma distinct_filter_keys: "distinct filter_keys"
  by (simp add: filter_keys_def)

lemma DEFAULT_at_key:
  "k \<in> set filter_keys \<Longrightarrow>
   map_of (DEFAULT_FILTER_PARAMS desc) k = Some (Reflect_get (DEFAULT_FILTER_PARAMS desc) k)"
  using Reflect_get_key[of k "DEFAULT_FILTER_PARAMS desc"] by (simp add: keys_DEFAULT)

lemma differs_at_filter_key:
  assumes "Object_keys fp = filter_keys" and "map_of fp \<noteq> map_of (DEFAULT_FILTER_PARAMS desc)"
  shows "\<exists>k \<in> set filter_keys. map_of fp k \<noteq> Some (Reflect_get (DEFAULT_FILTER_PARAMS desc) k)"
proof -
  from assms(2) obtain x where x: "map_of fp x \<noteq> map_of (DEFAULT_FILTER_PARAMS desc) x"
    by (auto simp: fun_eq_iff)
  have "x \<in> set filter_keys"
  proof (rule ccontr)
    assume "x \<notin> set filter_keys"
    then have "map_of fp x = None" "map_of (DEFAULT_FILTER_PARAMS desc) x = None"
      using assms(1) keys_DEFAULT[of desc] by (simp_all add: not_filter_key)
    with x show False by simp
  qed
  with x DEFAULT_at_key[of x desc] show ?thesis by auto
qed

lemma restored_map_of:
  assumes "Object_keys fp = filter_keys"
    and "\<forall>x. map_of fp' x =
           (if x \<in> set filter_keys then Some (Reflect_get (DEFAULT_FILTER_PARAMS desc) x)
            else map_of fp x)"
  shows "map_of fp' = map_of (DEFAULT_FILTER_PARAMS desc)"
proof
  fix x
  show "map_of fp' x = map_of (DEFAULT_FILTER_PARAMS desc) x"
  proof (cases "x \<in> set filter_keys")
    case True
    with assms(2) DEFAULT_at_key[of x desc] show ?thesis by simp
  next
    case False
    with assms not_filter_key[OF False assms(1)] not_filter_key[OF False keys_DEFAULT, of desc]
    show ?thesis by simp
  qed
qed

lemma default_query:
  assumes "map_of fp = map_of (DEFAULT_FILTER_PARAMS desc)"
  shows "map_of (getParams_of None fp []) k =
           (if k = ''keyword'' then Some JUndefined
            else if k = ''sort'' \<and> desc \<noteq> SELECT_ALL_VALUE then Some desc else None)"
  by (simp add: map_of_getParams_of assms DEFAULT_FILTER_PARAMS_def)

lemma reset_when_default:
  assumes "isEqual (filterParams s) (DEFAULT_FILTER_PARAMS desc)"
  shows "resetParamsAndRefresh fl desc s = fetchData None (s\<lparr>serarchKeyword := []\<rparr>)"
  using assms by (simp add: resetParamsAndRefresh_def Let_def toRaw_def)

lemma reset_Sync:
  assumes "\<not> isEqual (filterParams s) (DEFAULT_FILTER_PARAMS desc)"
  shows "resetParamsAndRefresh Sync desc s =
           assign_each (DEFAULT_FILTER_PARAMS desc) filter_keys (s\<lparr>serarchKeyword := []\<rparr>)"
  using assms by (simp add: resetParamsAndRefresh_def Let_def toRaw_def keys_DEFAULT)

lemma reset_Batched:
  assumes "\<not> isEqual (filterParams s) (DEFAULT_FILTER_PARAMS desc)"
      and "Object_keys (filterParams s) = filter_keys"
  shows "resetParamsAndRefresh Batched desc s =
           fetchData None
             (fst (assign_quiet (DEFAULT_FILTER_PARAMS desc) filter_keys
                     (s\<lparr>serarchKeyword := []\<rparr>)))"
proof -
  let ?s0 = "s\<lparr>serarchKeyword := []\<rparr>"
  from assms(1) have "map_of (filterParams ?s0) \<noteq> map_of (DEFAULT_FILTER_PARAMS desc)"
    by (simp add: isEqual_iff)
  with differs_at_filter_key[of "filterParams ?s0" desc] assms(2)
  have "snd (assign_quiet (DEFAULT_FILTER_PARAMS desc) filter_keys ?s0)"
    by (simp add: assign_quiet_changed[OF distinct_filter_keys])
  then obtain s1 where "assign_quiet (DEFAULT_FILTER_PARAMS desc) filter_keys ?s0 = (s1, True)"
    by (cases "assign_quiet (DEFAULT_FILTER_PARAMS desc) filter_keys ?s0") simp
  with assms(1) show ?thesis
    by (simp add: resetParamsAndRefresh_def Let_def toRaw_def keys_DEFAULT)
qed

text \<open>The state after a reset, whichever way the watcher is delivered.\<close>

lemma reset_state:
  assumes "Object_keys (filterParams s) = filter_keys"
  shows "serarchKeyword (fst (resetParamsAndRefresh fl desc s)) = []"
    and "map_of (filterParams (fst (resetParamsAndRefresh fl desc s))) =
           map_of (DEFAULT_FILTER_PARAMS desc)"
proof -
  let ?D = "DEFAULT_FILTER_PARAMS desc"
  let ?s0 = "s\<lparr>serarchKeyword := []\<rparr>"
  have "serarchKeyword (fst (resetParamsAndRefresh fl desc s)) = [] \<and>
        map_of (filterParams (fst (resetParamsAndRefresh fl desc s))) = map_of ?D"
  proof (cases "isEqual (filterParams s) ?D")
    case True
    then show ?thesis
      by (simp add: reset_when_default fetchData_def isEqual_iff)
  next
    case False
    show ?thesis
    proof (cases fl)
      case Sync
      have "map_of (filterParams (fst (assign_each ?D filter_keys ?s0))) = map_of ?D"
        using assms by (intro restored_map_of[of "filterParams ?s0"]) (simp_all add: assign_each_map_of)
      with False Sync show ?thesis
        by (simp add: reset_Sync assign_each_serarchKeyword)
    next
      case Batched
      let ?s1 = "fst (assign_quiet ?D filter_keys ?s0)"
      have m: "map_of (filterParams ?s1) = map_of ?D"
        using assms by (intro restored_map_of[of "filterParams ?s0"]) (simp_all add: assign_quiet_map_of)
      have "serarchKeyword ?s1 = []"
        by (simp add: assign_quiet_serarchKeyword)
      with False Batched m assms show ?thesis
        by (simp add: reset_Batched fetchData_def)
    qed
  qed
  then show "serarchKeyword (fst (resetParamsAndRefresh fl desc s)) = []"
    and "map_of (filterParams (fst (resetParamsAndRefresh fl desc s))) = map_of ?D"
    by simp_all
qed

lemma reset_Batched_out:
  assumes "Object_keys (filterParams s) = filter_keys"
  shows "snd (resetParamsAndRefresh Batched desc s) =
           [GetArticles (getParams_of None
              (filterParams (fst (resetParamsAndRefresh Batched desc s))) [])]"
proof (cases "isEqual (filterParams s) (DEFAULT_FILTER_PARAMS desc)")
  case True
  then show ?thesis by (simp add: reset_when_default fetchData_def)
next
  case False
  from reset_Batched[OF False assms] show ?thesis
    by (simp add: fetchData_def assign_quiet_serarchKeyword)
qed

lemma reset_Sync_count:
  assumes "Object_keys (filterParams s) = filter_keys"
  shows "length (snd (resetParamsAndRefresh Sync desc s)) =
           (if isEqual (filterParams s) (DEFAULT_FILTER_PARAMS desc) then 1
            else length (filter (\<lambda>k. map_of (filterParams s) k \<noteq>
                                       map_of (DEFAULT_FILTER_PARAMS desc) k) filter_keys))"
proof (cases "isEqual (filterParams s) (DEFAULT_FILTER_PARAMS desc)")
  case True
  then show ?thesis by (simp add: reset_when_default fetchData_def)
next
  case False
  have "filter (\<lambda>k. map_of (filterParams s) k \<noteq>
                     Some (Reflect_get (DEFAULT_FILTER_PARAMS desc) k)) filter_keys =
        filter (\<lambda>k. map_of (filterParams s) k \<noteq> map_of (DEFAULT_FILTER_PARAMS desc) k) filter_keys"
    by (intro filter_cong) (simp_all add: DEFAULT_at_key)
  with False show ?thesis
    by (simp add: reset_Sync assign_each_count[OF distinct_filter_keys])
qed

lemma reset_out_nonempty:
  assumes "Object_keys (filterParams s) = filter_keys"
  shows "snd (resetParamsAndRefresh fl desc s) \<noteq> []"
proof (cases fl)
  case Batched
  with reset_Batched_out[OF assms, of desc] show ?thesis by simp
next
  case Sync
  show ?thesis
  proof (cases "isEqual (filterParams s) (DEFAULT_FILTER_PARAMS desc)")
    case True
    then show ?thesis by (simp add: reset_when_default fetchData_def)
  next
    case False
    then have "map_of (filterParams s) \<noteq> map_of (DEFAULT_FILTER_PARAMS desc)"
      by (simp add: isEqual_iff)
    from differs_at_filter_key[OF assms this] obtain k where
      "k \<in> set filter_keys" "map_of (filterParams s) k \<noteq> map_of (DEFAULT_FILTER_PARAMS desc) k"
      by (auto simp: DEFAULT_at_key)
    then have "filter (\<lambda>k. map_of (filterParams s) k \<noteq>
                              map_of (DEFAULT_FILTER_PARAMS desc) k) filter_keys \<noteq> []"
      by (auto simp: filter_empty_conv)
    with reset_Sync_count[OF assms, of desc] False Sync show ?thesis
      by (metis length_0_conv)
  qed
qed

lemma reset_out_last:
  assumes "Object_keys (filterParams s) = filter_keys"
  shows "last (snd (resetParamsAndRefresh fl desc s)) =
           GetArticles (getParams_of None
              (filterParams (fst (resetParamsAndRefresh fl desc s))) [])"
proof (cases fl)
  case Batched
  with reset_Batched_out[OF assms, of desc] show ?thesis by simp
next
  case Sync
  show ?thesis
  proof (cases "isEqual (filterParams s) (DEFAULT_FILTER_PARAMS desc)")
    case True
    with Sync show ?thesis by (simp add: reset_when_default fetchData_def)
  next
    case False
    from reset_out_nonempty[OF assms, of Sync desc] False
    have "snd (assign_each (DEFAULT_FILTER_PARAMS desc) filter_keys (s\<lparr>serarchKeyword := []\<rparr>)) \<noteq> []"
      by (simp add: reset_Sync)
    from assign_each_last[OF this] False Sync show ?thesis by (simp add: reset_Sync)
  qed
qed

lemma reset_out_fetches:
  assumes "Object_keys (filterParams s) = filter_keys"
      and "x \<in> set (snd (resetParamsAndRefresh fl desc s))"
  shows "\<exists>fp. x = GetArticles (getParams_of None fp []) \<and> Object_keys fp = filter_keys"
proof (cases "isEqual (filterParams s) (DEFAULT_FILTER_PARAMS desc)")
  case True
  with assms show ?thesis by (auto simp: reset_when_default fetchData_def)
next
  case False
  show ?thesis
  proof (cases fl)
    case Batched
    with assms reset_Batched_out[OF assms(1), of desc] reset_keys[OF assms(1), of Batched desc]
    show ?thesis by auto
  next
    case Sync
    with False assms(2)
    have "x \<in> set (snd (assign_each (DEFAULT_FILTER_PARAMS desc) filter_keys
                         (s\<lparr>serarchKeyword := []\<rparr>)))"
      by (simp add: reset_Sync)
    from assign_each_fetches[OF _ this] assms(1) show ?thesis by simp
  qed
qed

lemma pageless:
  "Object_keys fp = filter_keys \<Longrightarrow>
   map_of (getParams_of None fp kw) ''page'' = None \<and>
   map_of (getParams_of None fp kw) ''per_page'' = None"
  using not_filter_key[of "''page''" fp] not_filter_key[of "''per_page''" fp]
  by (simp add: map_of_getParams_of filter_keys_def)

text \<open>
  The last fetch after a reset asks for the default query: the default sort, no other
  filter and no keyword.
\<close>

lemma reset_last_query:
  assumes "Object_keys (filterParams s) = filter_keys"
  shows "\<exists>q. last (snd (resetParamsAndRefresh fl desc s)) = GetArticles q \<and>
           (\<forall>k. map_of q k =
              (if k = ''keyword'' then Some JUndefined
               else if k = ''sort'' \<and> desc \<noteq> SELECT_ALL_VALUE then Some desc else None))"
  using reset_out_last[OF assms, of fl desc] reset_state(2)[OF assms, of fl desc]
  by (simp add: default_query)

text \<open>An instance with two filters away from their defaults.\<close>

lemma reset_two_filters:
  "snd (resetParamsAndRefresh Sync (JNum (- 1))
          ((initial (JNum (- 1)))
             \<lparr>filterParams :=
                set_prop ''state'' (JNum 1)
                  (set_prop ''lang'' (JStr ''en'') (DEFAULT_FILTER_PARAMS (JNum (- 1))))\<rparr>)) =
     [GetArticles [(''sort'', JNum (- 1)), (''state'', JNum 1), (''keyword'', JUndefined)],
      GetArticles [(''sort'', JNum (- 1)), (''keyword'', JUndefined)]]"
  "snd (resetParamsAndRefresh Batched (JNum (- 1))
          ((initial (JNum (- 1)))
             \<lparr>filterParams :=
                set_prop ''state'' (JNum 1)
                  (set_prop ''lang'' (JStr ''en'') (DEFAULT_FILTER_PARAMS (JNum (- 1))))\<rparr>)) =
     [GetArticles [(''sort'', JNum (- 1)), (''keyword'', JUndefined)]]"
  by (simp_all add: eval_defs)

section \<open>The request of a list fetch\<close>

text \<open>
  \<open>fetchData\<close> makes one call of \<open>getArticles\<close>. Every key of its parameter object other
  than \<open>keyword\<close> holds the value of the filter params, or where they have none the value
  of the caller's params, and is deleted when that value is \<open>ALL\<close>. For every search
  keyword other than the string \<open>ALL\<close>, the keyword is included exactly when it is not
  empty: the key holds the keyword then, and \<open>undefined\<close> for the empty keyword.
\<close>

lemma fetchData_request:
  "\<exists>q. snd (fetchData params s) = [GetArticles q] \<and>
       (\<forall>k. k \<noteq> ''keyword'' \<longrightarrow> map_of q k =
           (case map_of (filterParams s) k of
              Some v \<Rightarrow> (if v = SELECT_ALL_VALUE then None else Some v)
            | None \<Rightarrow>
                (case params of
                   None \<Rightarrow> None
                 | Some p \<Rightarrow>
                     (case map_of p k of
                        Some v \<Rightarrow> (if v = SELECT_ALL_VALUE then None else Some v)
                      | None \<Rightarrow> None)))) \<and>
       (serarchKeyword s \<noteq> ''ALL'' \<longrightarrow>
          (included q ''keyword'' \<longleftrightarrow> serarchKeyword s \<noteq> []) \<and>
          map_of q ''keyword'' =
            Some (if serarchKeyword s = [] then JUndefined else JStr (serarchKeyword s)))"
proof -
  let ?q = "getParams_of params (filterParams s) (serarchKeyword s)"
  have 1: "snd (fetchData params s) = [GetArticles ?q]"
    by (simp add: fetchData_def)
  have 2: "serarchKeyword s \<noteq> ''ALL'' \<longrightarrow>
          (included ?q ''keyword'' \<longleftrightarrow> serarchKeyword s \<noteq> []) \<and>
          map_of ?q ''keyword'' =
            Some (if serarchKeyword s = [] then JUndefined else JStr (serarchKeyword s))"
    by (simp add: included_def map_of_getParams_of)
  show ?thesis
    using 1 2 by (intro exI[of _ ?q]) (simp add: map_of_getParams_of)
qed

text \<open>
  C1, where the code departs from it. With the search keyword \<open>ALL\<close>, which is not empty,
  the request of the fetch holds the default sort and no keyword: line 90 gives every
  non-empty keyword to the object, and the loop of lines 92 to 96, which removes the
  sentinel of the selects, removes a keyword \<open>ALL\<close> with it. The keyword \<open>all\<close> is sent.
\<close>

theorem fetchData_drops_keyword_ALL:
  "snd (fetchData None ((initial (JNum (- 1)))\<lparr>serarchKeyword := ''ALL''\<rparr>))
     = [GetArticles [(''sort'', JNum (- 1))]] \<and>
   snd (fetchData None ((initial (JNum (- 1)))\<lparr>serarchKeyword := ''all''\<rparr>))
     = [GetArticles [(''sort'', JNum (- 1)), (''keyword'', JStr ''all'')]] \<and>
   \<not> included [(''sort'', JNum (- 1))] ''keyword'' \<and>
   included [(''sort'', JNum (- 1)), (''keyword'', JStr ''all'')] ''keyword''"
  by (simp add: fetchData_def initial_def object_defs included_def)

section \<open>The bulk update behind its confirmation\<close>

text \<open>
  C2. No dialog is open at the start, and in a run of the page there are as many calls of
  \<open>patchArticlesState\<close> as clicks on OK of a confirmation dialog. In any step, a call of
  \<open>patchArticlesState\<close> is made by the click on OK of an open dialog, with the ids and the
  state that dialog holds. A request for a state change, from the bulk menu or from a row,
  opens one dialog and makes no call; only such a request opens a dialog. The click on OK
  makes the patch call and nothing else, and only it adds a pending patch. The list is
  fetched again, by \<open>refreshData\<close>, in the step in which a pending patch resolves; a
  rejected patch is followed by no fetch.
\<close>

theorem patch_only_after_confirmation:
  assumes "run fl desc (initial desc) es = Some (s, out)"
      and "step fl desc s e = Some (s', out')"
  shows "modals (initial desc) = [] \<and>
         length (filter is_patch out) = length (filter is_confirmation es) \<and>
         (\<forall>ids st. PatchArticlesState ids st \<in> set out' \<longrightarrow>
            (\<exists>i. e = Modal_onOk i \<and> i < length (modals s) \<and> modals s ! i = (ids, st))) \<and>
         ((\<exists>n. e = Menu_onClick n) \<or> (\<exists>a st. e = Table_onUpdateState a st) \<longrightarrow>
            out' = [] \<and> pending_patches s' = pending_patches s \<and>
            length (modals s') = Suc (length (modals s))) \<and>
         (length (modals s) < length (modals s') \<longrightarrow>
            (\<exists>n. e = Menu_onClick n) \<or> (\<exists>a st. e = Table_onUpdateState a st)) \<and>
         (\<forall>i. e = Modal_onOk i \<longrightarrow>
            out' = [PatchArticlesState (fst (modals s ! i)) (snd (modals s ! i))] \<and>
            pending_patches s' = Suc (pending_patches s)) \<and>
         (pending_patches s < pending_patches s' \<longrightarrow> is_confirmation e) \<and>
         (e = Patch_resolved \<longrightarrow>
            0 < pending_patches s \<and> out' = snd (refreshData s) \<and> (\<exists>q. out' = [GetArticles q])) \<and>
         (e = Patch_rejected \<longrightarrow> out' = [])"
proof -
  note fr = step_frame[OF assms(2)]
  have 0: "modals (initial desc) = []" by (simp add: initial_def)
  have 1: "length (filter is_patch out) = length (filter is_confirmation es)"
    using assms(1) by (rule patch_count_run)
  have 2: "\<forall>ids st. PatchArticlesState ids st \<in> set out' \<longrightarrow>
            (\<exists>i. e = Modal_onOk i \<and> i < length (modals s) \<and> modals s ! i = (ids, st))"
    using patch_origin[OF assms(2)] by blast
  have 3: "(\<exists>n. e = Menu_onClick n) \<or> (\<exists>a st. e = Table_onUpdateState a st) \<longrightarrow>
            out' = [] \<and> pending_patches s' = pending_patches s \<and>
            length (modals s') = Suc (length (modals s))"
    using assms(2) fr
    by (auto simp: step_def handleStateChange_def split: if_splits)
  have 4: "length (modals s) < length (modals s') \<longrightarrow>
            (\<exists>n. e = Menu_onClick n) \<or> (\<exists>a st. e = Table_onUpdateState a st)"
    using fr(2) by (cases e) auto
  have 5: "\<forall>i. e = Modal_onOk i \<longrightarrow>
            out' = [PatchArticlesState (fst (modals s ! i)) (snd (modals s ! i))] \<and>
            pending_patches s' = Suc (pending_patches s)"
    using assms(2) by (auto simp: step_def onOk_def split: if_splits)
  have 6: "pending_patches s < pending_patches s' \<longrightarrow> is_confirmation e"
    using fr(1) by (cases e) auto
  have 7: "e = Patch_resolved \<longrightarrow>
            0 < pending_patches s \<and> out' = snd (refreshData s) \<and> (\<exists>q. out' = [GetArticles q])"
    using assms(2) by (auto simp: step_def refreshData_def fetchData_def split: if_splits)
  have 8: "e = Patch_rejected \<longrightarrow> out' = []"
    using assms(2) by (auto simp: step_def split: if_splits)
  from 0 1 2 3 4 5 6 7 8 show ?thesis by blast
qed

theorem patch_only_after_confirmation_witness:
  "\<exists>s out s'.
     run Sync (JNum (- 1)) (initial (JNum (- 1)))
       [Mounted, Table_onUpdateState \<lparr>article_id = ''a1''\<rparr> Published] = Some (s, out) \<and>
     step Sync (JNum (- 1)) s (Modal_onOk 0) = Some (s', [PatchArticlesState [''a1''] Published]) \<and>
     length (filter is_patch out) = 0 \<and>
     modals s = [([''a1''], Published)] \<and>
     pending_patches s' = Suc (pending_patches s)"
proof -
  obtain s out where r:
    "run Sync (JNum (- 1)) (initial (JNum (- 1)))
       [Mounted, Table_onUpdateState \<lparr>article_id = ''a1''\<rparr> Published] = Some (s, out)"
    and m: "modals s = [([''a1''], Published)]" and mo: "mounted s"
    by (simp add: eval_defs)
  obtain s' where st:
    "step Sync (JNum (- 1)) s (Modal_onOk 0) = Some (s', [PatchArticlesState [''a1''] Published])"
    using m mo by (simp add: step_def onOk_def)
  from patch_only_after_confirmation[OF r st]
  have "length (filter is_patch out) = 0" "pending_patches s' = Suc (pending_patches s)"
    by simp_all
  with r st m show ?thesis by blast
qed

section \<open>The publish states and the bulk menu\<close>

text \<open>
  C3. A publish state is one of exactly three values, Draft, Published and Recycle. The
  bulk menu has exactly three options, one for each of them in this order: a click on
  option \<open>n < 3\<close> of the menu asks \<open>handleStateChange\<close> for the \<open>n\<close>-th state
  with the selected ids (which opens a dialog and makes no remote call), and there is no
  fourth option.
\<close>

theorem publish_states_and_bulk_menu:
  "(\<forall>st. st = Draft \<or> st = Published \<or> st = Recycle) \<and>
   distinct [Draft, Published, Recycle] \<and>
   DropdownMenu_options = [Draft, Published, Recycle] \<and>
   (mounted s \<and> n < 3 \<longrightarrow>
      step fl desc s (Menu_onClick n) =
        Some (s\<lparr>modals := modals s @ [(selectedIds s, [Draft, Published, Recycle] ! n)]\<rparr>, [])) \<and>
   (3 \<le> n \<longrightarrow> step fl desc s (Menu_onClick n) = None)"
proof -
  have "\<forall>st. st = Draft \<or> st = Published \<or> st = Recycle"
    using PublishState.exhaust by blast
  then show ?thesis
    by (simp add: step_def DropdownMenu_options_def handleStateChange_def)
qed

theorem publish_states_and_bulk_menu_witness:
  "mounted ((initial (JNum (- 1)))\<lparr>mounted := True, selectedIds := [''a1'', ''a2'']\<rparr>) \<and>
   (2::nat) < 3 \<and>
   step Sync (JNum (- 1))
     ((initial (JNum (- 1)))\<lparr>mounted := True, selectedIds := [''a1'', ''a2'']\<rparr>) (Menu_onClick 2) =
     Some ((initial (JNum (- 1)))
             \<lparr>mounted := True, selectedIds := [''a1'', ''a2''],
              modals := [([''a1'', ''a2''], Recycle)]\<rparr>, []) \<and>
   (3::nat) \<le> 3 \<and>
   step Sync (JNum (- 1))
     ((initial (JNum (- 1)))\<lparr>mounted := True, selectedIds := [''a1'', ''a2'']\<rparr>) (Menu_onClick 3) = None"
proof -
  let ?s = "(initial (JNum (- 1)))\<lparr>mounted := True, selectedIds := [''a1'', ''a2'']\<rparr>"
  have h: "mounted ?s \<and> (2::nat) < 3"
    by (simp add: initial_def)
  with publish_states_and_bulk_menu[of ?s 2 Sync "JNum (- 1)"]
  have a: "step Sync (JNum (- 1)) ?s (Menu_onClick 2) =
      Some (?s\<lparr>modals := modals ?s @ [(selectedIds ?s, [Draft, Published, Recycle] ! 2)]\<rparr>, [])"
    by blast
  from publish_states_and_bulk_menu[of ?s 3 Sync "JNum (- 1)"]
  have b: "step Sync (JNum (- 1)) ?s (Menu_onClick 3) = None"
    by blast
  from h a b show ?thesis by (simp add: initial_def)
qed

section \<open>The watcher of the filter params\<close>

text \<open>
  C4. On the mounted page, in a reachable state: a select that changes its filter param
  is followed, in the same step, by exactly one list fetch made by the watcher. The fetch
  is \<open>fetchData()\<close> without params, so its request has no \<open>page\<close> and no \<open>per_page\<close>; it
  is built from the filter params after the write, where the changed key has its new
  value and every other key the value it had, so the request carries the new value
  (or leaves the key out when the new value is \<open>ALL\<close>). A reset is followed by at least
  one list fetch, each without \<open>page\<close> and \<open>per_page\<close>, the last of them built from the
  restored filter params. This holds for both ways of delivering the watcher.
\<close>

theorem filter_change_refetches:
  assumes "run fl desc (initial desc) es = Some (s, out)" and "mounted s"
  shows "(map_of (filterParams s) (select_key w) \<noteq> Some v \<longrightarrow>
           (\<exists>s' q. step fl desc s (Select_onChange w v) = Some (s', [GetArticles q]) \<and>
              q = getParams_of None (filterParams s') (serarchKeyword s') \<and>
              serarchKeyword s' = serarchKeyword s \<and>
              map_of (filterParams s') (select_key w) = Some v \<and>
              (\<forall>k. k \<noteq> select_key w \<longrightarrow>
                   map_of (filterParams s') k = map_of (filterParams s) k) \<and>
              map_of q (select_key w) = (if v = SELECT_ALL_VALUE then None else Some v) \<and>
              map_of q ''page'' = None \<and> map_of q ''per_page'' = None)) \<and>
         (\<exists>s' out'. step fl desc s Reset_onClick = Some (s', out') \<and>
              map_of (filterParams s') = map_of (DEFAULT_FILTER_PARAMS desc) \<and>
              out' \<noteq> [] \<and>
              last out' = GetArticles (getParams_of None (filterParams s') (serarchKeyword s')) \<and>
              (\<forall>x \<in> set out'. \<exists>q. x = GetArticles q \<and>
                   map_of q ''page'' = None \<and> map_of q ''per_page'' = None))"
proof -
  from reach_inv(2)[OF assms(1)] have keys: "Object_keys (filterParams s) = filter_keys" .
  have sel: "\<exists>s' q. step fl desc s (Select_onChange w v) = Some (s', [GetArticles q]) \<and>
              q = getParams_of None (filterParams s') (serarchKeyword s') \<and>
              serarchKeyword s' = serarchKeyword s \<and>
              map_of (filterParams s') (select_key w) = Some v \<and>
              (\<forall>k. k \<noteq> select_key w \<longrightarrow>
                   map_of (filterParams s') k = map_of (filterParams s) k) \<and>
              map_of q (select_key w) = (if v = SELECT_ALL_VALUE then None else Some v) \<and>
              map_of q ''page'' = None \<and> map_of q ''per_page'' = None"
    if ch: "map_of (filterParams s) (select_key w) \<noteq> Some v"
  proof -
    let ?fp = "set_prop (select_key w) v (filterParams s)"
    let ?s1 = "s\<lparr>filterParams := ?fp\<rparr>"
    let ?q = "getParams_of None ?fp (serarchKeyword s)"
    from keys select_key_in[of w] have keys': "Object_keys ?fp = filter_keys"
      by (simp add: keys_set_prop)
    have st: "step fl desc s (Select_onChange w v) =
        Some (fst (fetchData None ?s1), [GetArticles ?q])"
      using assms(2) ch by (simp add: step_def filterParams_assign_def Let_def fetchData_def)
    have fp: "filterParams (fst (fetchData None ?s1)) = ?fp"
      "serarchKeyword (fst (fetchData None ?s1)) = serarchKeyword s"
      by (simp_all add: fetchData_def)
    have nk: "select_key w \<noteq> ''keyword''"
      by (cases w) simp_all
    have a: "map_of ?fp (select_key w) = Some v"
      "\<forall>k. k \<noteq> select_key w \<longrightarrow> map_of ?fp k = map_of (filterParams s) k"
      by (simp_all add: map_of_set_prop)
    have b: "map_of ?q (select_key w) = (if v = SELECT_ALL_VALUE then None else Some v)"
      using nk by (simp add: map_of_getParams_of map_of_set_prop)
    from st fp a b pageless[OF keys', of "serarchKeyword s"] show ?thesis by simp
  qed
  have rs: "\<exists>s' out'. step fl desc s Reset_onClick = Some (s', out') \<and>
              map_of (filterParams s') = map_of (DEFAULT_FILTER_PARAMS desc) \<and>
              out' \<noteq> [] \<and>
              last out' = GetArticles (getParams_of None (filterParams s') (serarchKeyword s')) \<and>
              (\<forall>x \<in> set out'. \<exists>q. x = GetArticles q \<and>
                   map_of q ''page'' = None \<and> map_of q ''per_page'' = None)"
  proof -
    let ?r = "resetParamsAndRefresh fl desc s"
    have st: "step fl desc s Reset_onClick = Some (fst ?r, snd ?r)"
      using assms(2) by (simp add: step_def)
    have pl: "\<forall>x \<in> set (snd ?r). \<exists>q. x = GetArticles q \<and>
                   map_of q ''page'' = None \<and> map_of q ''per_page'' = None"
      using reset_out_fetches[OF keys] pageless by blast
    have la: "last (snd ?r) =
        GetArticles (getParams_of None (filterParams (fst ?r)) (serarchKeyword (fst ?r)))"
      using reset_out_last[OF keys, of fl desc] reset_state(1)[OF keys, of fl desc] by simp
    from st reset_state(2)[OF keys, of fl desc] reset_out_nonempty[OF keys, of fl desc] la pl
    show ?thesis by blast
  qed
  from sel rs show ?thesis by blast
qed

theorem filter_change_refetches_witness:
  "\<exists>s out s'.
     run Batched (JNum (- 1)) (initial (JNum (- 1))) [Mounted, Input_onChange ''hol''] = Some (s, out) \<and>
     mounted s \<and> map_of (filterParams s) (select_key Select_lang) \<noteq> Some (JStr ''en'') \<and>
     step Batched (JNum (- 1)) s (Select_onChange Select_lang (JStr ''en'')) =
       Some (s', [GetArticles [(''sort'', JNum (- 1)), (''lang'', JStr ''en''),
                               (''keyword'', JStr ''hol'')]])"
proof -
  obtain s out where r:
    "run Batched (JNum (- 1)) (initial (JNum (- 1))) [Mounted, Input_onChange ''hol''] = Some (s, out)"
    and m: "mounted s" and kw: "serarchKeyword s = ''hol''"
    and fp: "filterParams s = DEFAULT_FILTER_PARAMS (JNum (- 1))"
    by (simp add: eval_defs)
  have ch: "map_of (filterParams s) (select_key Select_lang) \<noteq> Some (JStr ''en'')"
    by (simp add: fp DEFAULT_FILTER_PARAMS_def SELECT_ALL_VALUE_def)
  from filter_change_refetches[OF r m, of Select_lang "JStr ''en''"] ch obtain s' q where
    st: "step Batched (JNum (- 1)) s (Select_onChange Select_lang (JStr ''en'')) = Some (s', [GetArticles q])"
    by blast
  moreover from st m kw fp
  have "q = [(''sort'', JNum (- 1)), (''lang'', JStr ''en''), (''keyword'', JStr ''hol'')]"
    by (simp add: step_def filterParams_assign_def Let_def fetchData_def object_defs)
  ultimately show ?thesis using r m ch by blast
qed

section \<open>The resolution of a list fetch\<close>

text \<open>
  C5. The callback of a resolved list fetch makes its two writes in one batched update:
  the component is rendered once for them, with an article state that is the response,
  \<open>article.data\<close> the data of the result and \<open>article.pagination\<close> its pagination, and with
  every other cell as it was; it is never rendered with the one written and the other
  not. The callback ends in that state and asks only for the scroll. When a list fetch is
  pending on the mounted page, its resolution is the step that runs the callback; besides
  the article state the step changes only what settles with the promise, the list flag
  and the count of pending list requests.
\<close>

theorem fetch_resolved_sets_article:
  "renders (fetchData_then_updates result) s = [s\<lparr>article := result\<rparr>] \<and>
   fetchData_then result s = (s\<lparr>article := result\<rparr>, [ScrollTo_body]) \<and>
   (mounted s \<and> 0 < pending_articles s \<longrightarrow>
      (\<exists>s'. step fl desc s (GetArticles_resolved result) = Some (s', [ScrollTo_body]) \<and>
            article s' = result \<and>
            data (article s') = data result \<and> pagination (article s') = pagination result \<and>
            s' = s\<lparr>article := result, loading := False,
                   pending_articles := pending_articles s - 1\<rparr> \<and>
            renders (fetchData_then_updates result)
              (s\<lparr>loading := promise_settled (loading s),
                 pending_articles := pending_articles s - 1\<rparr>) = [s']))"
  by (simp add: step_def fetchData_then_eq fetchData_then_updates_def promise_settled_def)

theorem fetch_resolved_sets_article_witness:
  "mounted (fst (onMounted ((initial (JNum (- 1)))\<lparr>mounted := True\<rparr>))) \<and>
   0 < pending_articles (fst (onMounted ((initial (JNum (- 1)))\<lparr>mounted := True\<rparr>))) \<and>
   (\<exists>s'. step Sync (JNum (- 1)) (fst (onMounted ((initial (JNum (- 1)))\<lparr>mounted := True\<rparr>)))
           (GetArticles_resolved
              \<lparr>data = [\<lparr>article_id = ''a1''\<rparr>],
               pagination = Some \<lparr>current_page = 1, per_page = 10, total = 1\<rparr>\<rparr>)
         = Some (s', [ScrollTo_body]) \<and>
         data (article s') = [\<lparr>article_id = ''a1''\<rparr>] \<and>
         pagination (article s') = Some \<lparr>current_page = 1, per_page = 10, total = 1\<rparr>)"
proof -
  let ?s = "fst (onMounted ((initial (JNum (- 1)))\<lparr>mounted := True\<rparr>))"
  let ?r = "\<lparr>data = [\<lparr>article_id = ''a1''\<rparr>],
             pagination = Some \<lparr>current_page = 1, per_page = 10, total = 1\<rparr>\<rparr>"
  have h: "mounted ?s \<and> 0 < pending_articles ?s"
    by (simp add: eval_defs)
  with fetch_resolved_sets_article[of ?r ?s Sync "JNum (- 1)"]
  obtain s' where "step Sync (JNum (- 1)) ?s (GetArticles_resolved ?r) = Some (s', [ScrollTo_body])"
    and "data (article s') = data ?r" and "pagination (article s') = pagination ?r"
    by blast
  with h show ?thesis by auto
qed

text \<open>The same two writes outside a block: the first rendering has the new data with the old
  pagination.\<close>

lemma unbatched_writes_render_twice:
  "renders [Write (Set_article_data d), Write (Set_article_pagination p)] s =
     [s\<lparr>article := (article s)\<lparr>data := d\<rparr>\<rparr>,
      s\<lparr>article := \<lparr>data = d, pagination = p\<rparr>\<rparr>]"
  by simp

section \<open>The keys of the filter params\<close>

text \<open>
  C6. The filter params hold exactly the seven keys \<open>sort\<close>, \<open>tag_slug\<close>,
  \<open>category_slug\<close>, \<open>lang\<close>, \<open>public\<close>, \<open>origin\<close> and \<open>state\<close>; the keyword is held apart, in
  \<open>serarchKeyword\<close>. The object starts with these keys, and whatever the events of a run
  (changes of the selects and resets among them), a state whose filter params have these
  keys is followed only by states whose filter params have them, in the same order.
\<close>

theorem filter_key_set_preserved:
  "filter_keys =
     [''sort'', ''tag_slug'', ''category_slug'', ''lang'', ''public'', ''origin'', ''state''] \<and>
   ''keyword'' \<notin> set filter_keys \<and>
   Object_keys (filterParams (initial desc)) = filter_keys \<and>
   (Object_keys (filterParams s) = filter_keys \<and> run fl desc s es = Some (s', out) \<longrightarrow>
      Object_keys (filterParams s') = filter_keys)"
  using run_keys[of s fl desc es s' out] by (simp add: keys_initial) (simp add: filter_keys_def)

theorem filter_key_set_preserved_witness:
  "\<exists>s' out.
     run Sync (JNum (- 1)) (initial (JNum (- 1)))
       [Mounted, Select_onChange Select_state (JNum 1), Select_onChange Select_tag (JStr ''hol''),
        Input_onChange ''word'', Reset_onClick] = Some (s', out) \<and>
     Object_keys (filterParams (initial (JNum (- 1)))) = filter_keys \<and>
     Object_keys (filterParams s') = filter_keys"
proof -
  obtain s' out where r:
    "run Sync (JNum (- 1)) (initial (JNum (- 1)))
       [Mounted, Select_onChange Select_state (JNum 1), Select_onChange Select_tag (JStr ''hol''),
        Input_onChange ''word'', Reset_onClick] = Some (s', out)"
    by (simp add: object_defs handler_defs)
  from filter_key_set_preserved[of "JNum (- 1)" "initial (JNum (- 1))" Sync _ s' out] r
  show ?thesis by blast
qed

section \<open>The loading flags\<close>

text \<open>
  C7, as the code has it. In every reachable state the categories request is pending
  exactly when \<open>loadingCategory\<close> is set and the tags request exactly when \<open>loadingTag\<close>
  is set; each of the two has been made once if the page is mounted and not at all before.
  For the article list the flag implies a pending request, not the converse: every list
  fetch sets the flag, and the settling of any list fetch, resolved or rejected, clears
  it, also while another list fetch is still pending. The flags are all the coordination
  there is: a list fetch is one remote call each time it is asked for, a search on the
  mounted page is a list fetch whatever the flags and the pending requests are, a rejected
  request is followed by no call, and the patch request runs under no flag.
\<close>

theorem loading_flags:
  assumes "run fl desc (initial desc) es = Some (s, out)"
  shows "(loadingCategory s \<longleftrightarrow> 0 < pending_categories s) \<and>
         (loadingTag s \<longleftrightarrow> 0 < pending_tags s) \<and>
         pending_categories s \<le> 1 \<and> pending_tags s \<le> 1 \<and>
         length (filter is_categories out) = (if mounted s then 1 else 0) \<and>
         length (filter is_tags out) = (if mounted s then 1 else 0) \<and>
         (loading s \<longrightarrow> 0 < pending_articles s) \<and>
         loading (fst (fetchData params s)) \<and>
         pending_articles (fst (fetchData params s)) = Suc (pending_articles s) \<and>
         snd (fetchData params s) =
           [GetArticles (getParams_of params (filterParams s) (serarchKeyword s))] \<and>
         (mounted s \<longrightarrow> step fl desc s Input_onSearch = Some (fetchData None s)) \<and>
         (\<forall>s' out'. step fl desc s (GetArticles_resolved r) = Some (s', out') \<longrightarrow>
            \<not> loading s' \<and> pending_articles s' = pending_articles s - 1) \<and>
         (\<forall>s' out'. step fl desc s GetArticles_rejected = Some (s', out') \<longrightarrow>
            \<not> loading s' \<and> pending_articles s' = pending_articles s - 1 \<and> out' = []) \<and>
         (\<forall>s' out'. step fl desc s GetCategories_rejected = Some (s', out') \<longrightarrow>
            \<not> loadingCategory s' \<and> out' = []) \<and>
         (\<forall>s' out'. step fl desc s GetTags_rejected = Some (s', out') \<longrightarrow>
            \<not> loadingTag s' \<and> out' = []) \<and>
         (\<forall>s' out'. step fl desc s (Modal_onOk i) = Some (s', out') \<longrightarrow>
            loading s' = loading s \<and> loadingCategory s' = loadingCategory s \<and>
            loadingTag s' = loadingTag s)"
proof -
  from reach_inv(1)[OF assms] have
    1: "(loadingCategory s \<longleftrightarrow> 0 < pending_categories s) \<and>
        (loadingTag s \<longleftrightarrow> 0 < pending_tags s) \<and>
        pending_categories s \<le> 1 \<and> pending_tags s \<le> 1 \<and>
        (loading s \<longrightarrow> 0 < pending_articles s)"
    by (simp add: page_inv_def split: if_splits)
  from lists_run[OF assms] have
    once: "length (filter is_categories out) = (if mounted s then 1 else 0) \<and>
           length (filter is_tags out) = (if mounted s then 1 else 0)"
    by (simp add: initial_def)
  have 2: "loading (fst (fetchData params s)) \<and>
           pending_articles (fst (fetchData params s)) = Suc (pending_articles s) \<and>
           snd (fetchData params s) =
             [GetArticles (getParams_of params (filterParams s) (serarchKeyword s))]"
    by (simp add: fetchData_def promise_started_def)
  have nohold: "mounted s \<longrightarrow> step fl desc s Input_onSearch = Some (fetchData None s)"
    by (simp add: step_def)
  have 3: "\<forall>s' out'. step fl desc s (GetArticles_resolved r) = Some (s', out') \<longrightarrow>
            \<not> loading s' \<and> pending_articles s' = pending_articles s - 1"
    by (auto simp: step_def fetchData_then_eq promise_settled_def split: if_splits)
  have 4: "\<forall>s' out'. step fl desc s GetArticles_rejected = Some (s', out') \<longrightarrow>
            \<not> loading s' \<and> pending_articles s' = pending_articles s - 1 \<and> out' = []"
    by (auto simp: step_def promise_settled_def split: if_splits)
  have c4: "\<forall>s' out'. step fl desc s GetCategories_rejected = Some (s', out') \<longrightarrow>
            \<not> loadingCategory s' \<and> out' = []"
    by (auto simp: step_def promise_settled_def split: if_splits)
  have t4: "\<forall>s' out'. step fl desc s GetTags_rejected = Some (s', out') \<longrightarrow>
            \<not> loadingTag s' \<and> out' = []"
    by (auto simp: step_def promise_settled_def split: if_splits)
  have 5: "\<forall>s' out'. step fl desc s (Modal_onOk i) = Some (s', out') \<longrightarrow>
            loading s' = loading s \<and> loadingCategory s' = loadingCategory s \<and>
            loadingTag s' = loadingTag s"
    by (auto simp: step_def onOk_def split: if_splits)
  from 1 once 2 nohold 3 4 c4 t4 5 show ?thesis by blast
qed

theorem loading_flags_witness:
  "\<exists>s out.
     run Sync (JNum (- 1)) (initial (JNum (- 1)))
       [Mounted, GetTags_resolved [], Input_onSearch, GetArticles_rejected] = Some (s, out) \<and>
     loadingCategory s \<and> pending_categories s = 1 \<and>
     \<not> loadingTag s \<and> pending_tags s = 0 \<and>
     length (filter is_categories out) = 1 \<and> length (filter is_tags out) = 1"
proof -
  obtain s out where r:
    "run Sync (JNum (- 1)) (initial (JNum (- 1)))
       [Mounted, GetTags_resolved [], Input_onSearch, GetArticles_rejected] = Some (s, out)"
    and v: "mounted s" "pending_categories s = 1" "pending_tags s = 0"
    by (simp add: eval_defs)
  from loading_flags[OF r] v show ?thesis using r by auto
qed

text \<open>
  C7 as stated fails when two list fetches overlap: after the mount a search starts a
  second fetch, the first one resolves, and a list fetch is pending while \<open>loading\<close> is
  clear.
\<close>

theorem overlapping_fetch_counterexample:
  "\<exists>s out.
     run Sync (JNum (- 1)) (initial (JNum (- 1)))
       [Mounted, Input_onSearch, GetArticles_resolved \<lparr>data = [], pagination = None\<rparr>]
       = Some (s, out) \<and>
     pending_articles s = 1 \<and> \<not> loading s"
  by (simp add: eval_defs)

section \<open>The refresh after a bulk update\<close>

text \<open>
  C9. When a patch is pending in a reachable state, its resolution makes one list fetch,
  that of \<open>refreshData\<close>: \<open>page\<close> and \<open>per_page\<close> hold the current page and the page size of
  the pagination the page has, and hold \<open>undefined\<close>, so that neither is included, when it
  has none yet. Every other parameter is the one a plain \<open>fetchData()\<close> would send.
\<close>

theorem refreshData_keeps_pagination:
  assumes "run fl desc (initial desc) es = Some (s, out)" and "0 < pending_patches s"
  shows "\<exists>s' q. step fl desc s Patch_resolved = Some (s', [GetArticles q]) \<and>
           map_of q ''page'' =
             Some (case pagination (article s) of
                     None \<Rightarrow> JUndefined | Some p \<Rightarrow> JNum (current_page p)) \<and>
           map_of q ''per_page'' =
             Some (case pagination (article s) of
                     None \<Rightarrow> JUndefined | Some p \<Rightarrow> JNum (per_page p)) \<and>
           (included q ''page'' \<longleftrightarrow> pagination (article s) \<noteq> None) \<and>
           (included q ''per_page'' \<longleftrightarrow> pagination (article s) \<noteq> None) \<and>
           (\<forall>k. k \<noteq> ''page'' \<and> k \<noteq> ''per_page'' \<longrightarrow>
                map_of q k = map_of (getParams_of None (filterParams s) (serarchKeyword s)) k)"
proof -
  let ?P = "[(''page'', case pagination (article s) of
                          None \<Rightarrow> JUndefined | Some p \<Rightarrow> JNum (current_page p)),
             (''per_page'', case pagination (article s) of
                          None \<Rightarrow> JUndefined | Some p \<Rightarrow> JNum (per_page p))]"
  let ?q = "getParams_of (Some ?P) (filterParams s) (serarchKeyword s)"
  from reach_inv[OF assms(1)] have inv: "page_inv s"
    and keys: "Object_keys (filterParams s) = filter_keys" by simp_all
  from inv assms(2) have m: "mounted s" by (auto simp: page_inv_def)
  have nk: "map_of (filterParams s) ''page'' = None" "map_of (filterParams s) ''per_page'' = None"
    using keys by (simp_all add: not_filter_key filter_keys_def)
  have st: "step fl desc s Patch_resolved =
      Some (fst (refreshData (s\<lparr>pending_patches := pending_patches s - 1\<rparr>)), [GetArticles ?q])"
    using m assms(2) by (simp add: step_def refreshData_def fetchData_def)
  have pg: "map_of ?q ''page'' =
      Some (case pagination (article s) of None \<Rightarrow> JUndefined | Some p \<Rightarrow> JNum (current_page p))"
    using nk by (simp add: map_of_getParams_of SELECT_ALL_VALUE_def split: option.splits)
  have pp: "map_of ?q ''per_page'' =
      Some (case pagination (article s) of None \<Rightarrow> JUndefined | Some p \<Rightarrow> JNum (per_page p))"
    using nk by (simp add: map_of_getParams_of SELECT_ALL_VALUE_def split: option.splits)
  have ip: "included ?q ''page'' \<longleftrightarrow> pagination (article s) \<noteq> None"
    unfolding included_def pg by (simp split: option.splits)
  have ipp: "included ?q ''per_page'' \<longleftrightarrow> pagination (article s) \<noteq> None"
    unfolding included_def pp by (simp split: option.splits)
  have rest: "\<forall>k. k \<noteq> ''page'' \<and> k \<noteq> ''per_page'' \<longrightarrow>
      map_of ?q k = map_of (getParams_of None (filterParams s) (serarchKeyword s)) k"
    by (simp add: map_of_getParams_of split: option.splits)
  from st pg pp ip ipp rest show ?thesis by blast
qed

theorem refreshData_keeps_pagination_witness:
  "\<exists>s out s' q.
     run Batched (JNum (- 1)) (initial (JNum (- 1)))
       [Mounted,
        GetArticles_resolved
          \<lparr>data = [\<lparr>article_id = ''a1''\<rparr>],
           pagination = Some \<lparr>current_page = 2, per_page = 10, total = 11\<rparr>\<rparr>,
        Table_onUpdateState \<lparr>article_id = ''a1''\<rparr> Published,
        Modal_onOk 0] = Some (s, out) \<and>
     0 < pending_patches s \<and>
     step Batched (JNum (- 1)) s Patch_resolved = Some (s', [GetArticles q]) \<and>
     map_of q ''page'' = Some (JNum 2) \<and> map_of q ''per_page'' = Some (JNum 10) \<and>
     included q ''page'' \<and> included q ''per_page''"
proof -
  let ?es = "[Mounted,
        GetArticles_resolved
          \<lparr>data = [\<lparr>article_id = ''a1''\<rparr>],
           pagination = Some \<lparr>current_page = 2, per_page = 10, total = 11\<rparr>\<rparr>,
        Table_onUpdateState \<lparr>article_id = ''a1''\<rparr> Published,
        Modal_onOk 0]"
  obtain s out where r: "run Batched (JNum (- 1)) (initial (JNum (- 1))) ?es = Some (s, out)"
    and p: "0 < pending_patches s"
    and a: "pagination (article s) = Some \<lparr>current_page = 2, per_page = 10, total = 11\<rparr>"
    by (simp add: eval_defs)
  from refreshData_keeps_pagination[OF r p] a r p show ?thesis
    by (simp add: included_def) blast
qed

section \<open>The selection of a bulk update\<close>

text \<open>
  The page disables the bulk menu exactly when no id is selected. A click on an option of
  the menu passes the selected ids to \<open>handleStateChange\<close>, and the update of a row passes
  the list of the one id of its article.
\<close>

lemma DropdownMenu_disabled_iff: "DropdownMenu_disabled s \<longleftrightarrow> selectedIds s = []"
  by (simp add: DropdownMenu_disabled_def)

lemma bulk_and_row_requests:
  assumes "mounted s"
  shows "n < 3 \<Longrightarrow> step fl desc s (Menu_onClick n) =
           Some (s\<lparr>modals := modals s @ [(selectedIds s, DropdownMenu_options ! n)]\<rparr>, [])"
    and "step fl desc s (Table_onUpdateState a st) =
           Some (s\<lparr>modals := modals s @ [([article_id a], st)]\<rparr>, [])"
  using assms by (simp_all add: step_def DropdownMenu_options_def handleStateChange_def)

text \<open>
  The closures of the options do not look at the selection themselves: were an option
  clicked while no id is selected, the confirmed patch would be asked for the empty list.
  Whether that click can happen is decided by \<open>DropdownMenu\<close>, which receives \<open>disabled\<close>.
\<close>

lemma menu_click_without_selection:
  "\<exists>s. run fl (JNum (- 1)) (initial (JNum (- 1))) [Mounted, Menu_onClick 1, Modal_onOk 0] =
     Some (s, [GetArticles [(''sort'', JNum (- 1)), (''keyword'', JUndefined)],
               GetCategories [(''per_page'', JNum 50)], GetTags [(''per_page'', JNum 50)],
               PatchArticlesState [] Published])"
  by (simp add: eval_defs)

end
